theory Spec2Isabelle
  imports Complex_Main
begin

section \<open>Python values used by the offset-detection modules\<close>

text \<open>
  The three modules \<^verbatim>\<open>pdf_processor.py\<close>, \<^verbatim>\<open>ocr_detector.py\<close> and
  \<^verbatim>\<open>offset_calculator.py\<close> are embedded function by function. Python integers are
  \<open>int\<close>, \<open>None\<close>-able values are \<open>option\<close>s, dictionaries with a fixed key set are
  records (an optional key is an \<open>option\<close> field), and every exception the code can
  raise is a value of \<open>error\<close>.
\<close>

datatype error =
    OverflowError
  | ZeroDivisionError
  | ValueError
  | IndexError
  | KeyError
  | RecognizerError

subsection \<open>Double-precision floats\<close>

text \<open>
  Python's \<open>float\<close> is an IEEE 754 binary64 number. A finite float is represented by
  the rational it denotes; every operation computes the exact rational result and rounds
  it to the nearest representable number, ties to even (\<open>round_double\<close>). Signed
  zeros are not distinguished: no operation used by the modules observes the sign of a
  zero.
\<close>

datatype double = Finite rat | PosInf | NegInf | NaN

definition pow2 :: "int \<Rightarrow> rat" where
  "pow2 e = (if 0 \<le> e then 2 ^ nat e else 1 / 2 ^ nat (- e))"

fun bit_length :: "nat \<Rightarrow> nat" where
  "bit_length n = (if n = 0 then 0 else Suc (bit_length (n div 2)))"

declare bit_length.simps [simp del]

definition floor_log2 :: "rat \<Rightarrow> int" where
  \<comment> \<open>for \<open>0 < x\<close>: the exponent \<open>e\<close> with \<open>2 ^ e \<le> x < 2 ^ (e + 1)\<close>\<close>
  "floor_log2 x =
     (if 1 \<le> x then int (bit_length (nat \<lfloor>x\<rfloor>)) - 1
      else - int (bit_length (nat (\<lceil>1 / x\<rceil> - 1))))"

definition round_half_even :: "rat \<Rightarrow> int" where
  "round_half_even q =
     (let f = \<lfloor>q\<rfloor>; d = q - of_int f
      in if d < 1 / 2 then f
         else if 1 / 2 < d then f + 1
         else if even f then f else f + 1)"

definition round_double :: "rat \<Rightarrow> double" where
  \<comment> \<open>53 significant bits, least exponent \<open>-1022\<close> (subnormals below it), overflow
      to an infinity from \<open>2 ^ 1024\<close> on\<close>
  "round_double x =
     (if x = 0 then Finite 0
      else let e = max (floor_log2 \<bar>x\<bar>) (- 1022);
               u = pow2 (e - 52);
               y = of_int (round_half_even (x / u)) * u
           in if pow2 1024 \<le> \<bar>y\<bar> then (if 0 < x then PosInf else NegInf)
              else Finite y)"

definition float_of_int :: "int \<Rightarrow> error + double" where
  \<comment> \<open>the implicit conversion of an \<open>int\<close> operand in mixed arithmetic\<close>
  "float_of_int n =
     (case round_double (of_int n) of
        Finite y \<Rightarrow> Inr (Finite y)
      | _ \<Rightarrow> Inl OverflowError)"

definition int_truediv :: "int \<Rightarrow> int \<Rightarrow> error + double" where
  \<comment> \<open>\<open>a / b\<close> on two \<open>int\<close>s: the correctly rounded quotient\<close>
  "int_truediv a b =
     (if b = 0 then Inl ZeroDivisionError
      else case round_double (of_int a / of_int b) of
             Finite y \<Rightarrow> Inr (Finite y)
           | _ \<Rightarrow> Inl OverflowError)"

fun float_sgn :: "double \<Rightarrow> int" where
  "float_sgn (Finite x) = (if x = 0 then 0 else if 0 < x then 1 else - 1)"
| "float_sgn PosInf = 1"
| "float_sgn NegInf = - 1"
| "float_sgn NaN = 0"

fun float_mul :: "double \<Rightarrow> double \<Rightarrow> double" where
  "float_mul (Finite x) (Finite y) = round_double (x * y)"
| "float_mul NaN b = NaN"
| "float_mul a NaN = NaN"
| "float_mul a b =
     (let s = float_sgn a * float_sgn b
      in if s = 0 then NaN else if 0 < s then PosInf else NegInf)"

fun float_add :: "double \<Rightarrow> double \<Rightarrow> double" where
  "float_add (Finite x) (Finite y) = round_double (x + y)"
| "float_add NaN b = NaN"
| "float_add a NaN = NaN"
| "float_add PosInf NegInf = NaN"
| "float_add NegInf PosInf = NaN"
| "float_add PosInf b = PosInf"
| "float_add a PosInf = PosInf"
| "float_add NegInf b = NegInf"
| "float_add a NegInf = NegInf"

fun int_of_float :: "double \<Rightarrow> error + int" where
  \<comment> \<open>\<open>int(x)\<close>: truncation towards zero\<close>
  "int_of_float (Finite x) = Inr (if 0 \<le> x then \<lfloor>x\<rfloor> else \<lceil>x\<rceil>)"
| "int_of_float NaN = Inl ValueError"
| "int_of_float a = Inl OverflowError"

section \<open>Sampler (\<^verbatim>\<open>pdf_processor.py\<close>)\<close>

definition sample_page :: "int \<Rightarrow> int \<Rightarrow> int \<Rightarrow> int \<Rightarrow> error + int" where
  \<comment> \<open>the body of the loop in \<open>select_sample_pages\<close>, for the index \<open>i\<close>\<close>
  "sample_page usable_start usable_range num_samples i =
     (case int_truediv (i + 1) (num_samples + 1) of
        Inl e \<Rightarrow> Inl e
      | Inr fraction \<Rightarrow>
          (case float_of_int usable_range of
             Inl e \<Rightarrow> Inl e
           | Inr r \<Rightarrow>
               (case float_of_int usable_start of
                  Inl e \<Rightarrow> Inl e
                | Inr s \<Rightarrow> int_of_float (float_add s (float_mul r fraction)))))"

fun positions_loop :: "int \<Rightarrow> int \<Rightarrow> int \<Rightarrow> int list \<Rightarrow> int list \<Rightarrow> error + int list" where
  "positions_loop usable_start usable_range num_samples [] positions = Inr positions"
| "positions_loop usable_start usable_range num_samples (i # is) positions =
     (case sample_page usable_start usable_range num_samples i of
        Inl e \<Rightarrow> Inl e
      | Inr page \<Rightarrow>
          positions_loop usable_start usable_range num_samples is (positions @ [page]))"

definition select_sample_pages :: "int \<Rightarrow> int \<Rightarrow> int \<Rightarrow> error + int list" where
  "select_sample_pages total_pages num_samples skip_first =
     (if total_pages \<le> skip_first
      then Inr (if 0 < total_pages then [total_pages div 2] else [])
      else let usable_start = skip_first + 1;
               usable_end = total_pages;
               usable_range = usable_end - usable_start
           in if usable_range < num_samples
              then Inr [usable_start .. usable_end]
              else positions_loop usable_start usable_range num_samples
                     [0 .. num_samples - 1] [])"

section \<open>Consensus engine and mapping builder (\<^verbatim>\<open>offset_calculator.py\<close>)\<close>

subsection \<open>Formatting integers\<close>

text \<open>
  Integers are formatted in full: the limit that some interpreter versions put on the
  number of digits of a conversion between \<open>int\<close> and \<open>str\<close> (4300 by default) is
  a setting of the interpreter and is not modelled.
\<close>

fun str_nat :: "nat \<Rightarrow> string" where
  "str_nat n =
     (if n < 10 then [''0123456789'' ! n]
      else str_nat (n div 10) @ [''0123456789'' ! (n mod 10)])"

declare str_nat.simps [simp del]

definition str_int :: "int \<Rightarrow> string" where
  \<comment> \<open>\<open>str(i)\<close>, as an f-string field formats an \<open>int\<close>\<close>
  "str_int i = (if i < 0 then CHR ''-'' # str_nat (nat (- i)) else str_nat (nat i))"

subsection \<open>Samples\<close>

record offset_sample =
  pdf_page :: int
  detected_label :: "int option"
  offset :: "int option"

definition OffsetSample :: "int \<Rightarrow> int option \<Rightarrow> offset_sample" where
  \<comment> \<open>\<open>OffsetSample.__init__\<close>\<close>
  "OffsetSample p l =
     \<lparr>pdf_page = p, detected_label = l,
      offset = (case l of None \<Rightarrow> None | Some d \<Rightarrow> Some (p - d))\<rparr>"

subsection \<open>\<open>collections.Counter\<close>\<close>

text \<open>
  A \<open>Counter\<close> is a dictionary that keeps its keys in insertion order, so it is an
  association list. Counting an element increments its entry where the key already is, or
  appends a new entry. \<open>most_common(1)\<close> is \<open>max\<close> over the items by count,
  which keeps the first of several maximal items.
\<close>

type_synonym counter = "(int \<times> nat) list"

fun counter_incr :: "int \<Rightarrow> counter \<Rightarrow> counter" where
  "counter_incr x [] = [(x, 1)]"
| "counter_incr x ((k, n) # kvs) =
     (if k = x then (k, n + 1) # kvs else (k, n) # counter_incr x kvs)"

definition Counter :: "int list \<Rightarrow> counter" where
  "Counter xs = foldl (\<lambda>c x. counter_incr x c) [] xs"

fun max_by_count :: "int \<times> nat \<Rightarrow> counter \<Rightarrow> int \<times> nat" where
  "max_by_count best [] = best"
| "max_by_count best (kv # kvs) =
     max_by_count (if snd best < snd kv then kv else best) kvs"

definition most_common1 :: "counter \<Rightarrow> (int \<times> nat) list" where
  "most_common1 c = (case c of [] \<Rightarrow> [] | kv # kvs \<Rightarrow> [max_by_count kv kvs])"

subsection \<open>Float comparisons\<close>

fun float_eq :: "double \<Rightarrow> double \<Rightarrow> bool" where
  "float_eq (Finite x) (Finite y) = (x = y)"
| "float_eq PosInf PosInf = True"
| "float_eq NegInf NegInf = True"
| "float_eq a b = False"

fun float_ge :: "double \<Rightarrow> double \<Rightarrow> bool" where
  "float_ge (Finite x) (Finite y) = (y \<le> x)"
| "float_ge NaN b = False"
| "float_ge a NaN = False"
| "float_ge PosInf b = True"
| "float_ge a NegInf = True"
| "float_ge a b = False"

definition float_lt :: "double \<Rightarrow> double \<Rightarrow> bool" where
  "float_lt a b = (float_ge b a \<and> \<not> float_eq a b)"

definition literal_0_66 :: double where
  \<comment> \<open>the literal \<open>0.66\<close>\<close>
  "literal_0_66 = round_double (66 / 100)"

subsection \<open>\<open>calculate_offset_from_samples\<close>\<close>

record evidence_entry =
  ev_pdf_page :: int
  ev_detected_label :: "int option"
  ev_offset :: "int option"
  ev_agrees_with_consensus :: "bool option"

record offset_result =
  res_offset :: "int option"
  res_confidence :: string
  res_samples_processed :: nat
  res_samples_agreed :: nat
  res_samples_valid :: "nat option"
  res_agreement_ratio :: "double option"
  res_all_offsets :: "int list"
  res_offset_distribution :: "counter option"
  res_evidence :: "evidence_entry list"
  res_message :: "string option"
  res_warning :: "string option"

definition valid_samples :: "offset_sample list \<Rightarrow> offset_sample list" where
  \<comment> \<open>the samples where detection did not fail\<close>
  "valid_samples samples = filter (\<lambda>s. offset s \<noteq> None) samples"

definition calculate_offset_from_samples :: "offset_sample list \<Rightarrow> error + offset_result" where
  "calculate_offset_from_samples samples =
     (let valid = valid_samples samples
      in if valid = []
         then Inr \<lparr>res_offset = None,
                   res_confidence = ''NONE'',
                   res_samples_processed = length samples,
                   res_samples_agreed = 0,
                   res_samples_valid = None,
                   res_agreement_ratio = None,
                   res_all_offsets = [],
                   res_offset_distribution = None,
                   res_evidence =
                     map (\<lambda>s. \<lparr>ev_pdf_page = pdf_page s,
                                ev_detected_label = detected_label s,
                                ev_offset = offset s,
                                ev_agrees_with_consensus = None\<rparr>) samples,
                   res_message = Some (''No labeled page numbers detected. '' @
                     ''Document may use PDF page numbers directly (offset = 0).''),
                   res_warning = None\<rparr>
         else
           let offsets = map (the \<circ> offset) valid;
               offset_counts = Counter offsets
           in case most_common1 offset_counts of
                [] \<Rightarrow> Inl IndexError
              | (consensus_offset, consensus_count) # _ \<Rightarrow>
                  let total_valid = length valid
                  in case int_truediv (int consensus_count) (int total_valid) of
                       Inl e \<Rightarrow> Inl e
                     | Inr agreement_ratio \<Rightarrow>
                         let confidence =
                               (if float_eq agreement_ratio (Finite 1) then ''HIGH''
                                else if float_ge agreement_ratio literal_0_66 then ''MEDIUM''
                                else ''LOW'')
                         in Inr \<lparr>res_offset = Some consensus_offset,
                                  res_confidence = confidence,
                                  res_samples_processed = length samples,
                                  res_samples_agreed = consensus_count,
                                  res_samples_valid = Some total_valid,
                                  res_agreement_ratio = Some agreement_ratio,
                                  res_all_offsets = offsets,
                                  res_offset_distribution = Some offset_counts,
                                  res_evidence =
                                    map (\<lambda>s. \<lparr>ev_pdf_page = pdf_page s,
                                               ev_detected_label = detected_label s,
                                               ev_offset = offset s,
                                               ev_agrees_with_consensus =
                                                 Some (offset s = Some consensus_offset)\<rparr>)
                                      samples,
                                  res_message = None,
                                  res_warning =
                                    (if confidence = ''LOW''
                                     then Some (''Low confidence: Only '' @
                                            str_nat consensus_count @ ''/'' @ str_nat total_valid @
                                            '' samples agree. Manual review recommended.'')
                                     else if confidence = ''MEDIUM''
                                     then Some (''Medium confidence: '' @
                                            str_nat consensus_count @ ''/'' @ str_nat total_valid @
                                            '' samples agree. Consider manual verification.'')
                                     else None)\<rparr>)"

subsection \<open>\<open>validate_offset\<close> and \<open>create_offset_mapping\<close>\<close>

definition validate_offset :: "int option \<Rightarrow> int \<Rightarrow> bool \<times> string" where
  "validate_offset offs max_offset =
     (case offs of
        None \<Rightarrow> (False, ''No offset detected'')
      | Some v \<Rightarrow>
          if max_offset < \<bar>v\<bar>
          then (False, ''Offset '' @ str_int v @ '' exceeds maximum '' @ str_int max_offset @
                       ''. May be incorrect.'')
          else if v < 0
          then (True, ''Negative offset ('' @ str_int v @
                      ''): PDF pages numbered lower than document pages'')
          else if v = 0
          then (True, ''Zero offset: PDF and document pages match'')
          else (True, ''Positive offset ('' @ str_int v @
                      ''): PDF pages numbered higher than document pages''))"

record validation =
  is_valid :: bool
  message :: string

record offset_mapping =
  map_document_name :: string
  map_offset :: "int option"
  map_confidence :: string
  map_samples_processed :: nat
  map_samples_agreed :: nat
  map_method :: string
  map_evidence :: "evidence_entry list"
  map_evidence_images :: "string list"
  map_warning :: "string option"
  map_message :: "string option"
  map_offset_distribution :: "counter option"
  map_validation :: "validation option"

definition create_offset_mapping ::
  "string \<Rightarrow> string \<Rightarrow> offset_result \<Rightarrow> string list \<Rightarrow> string \<Rightarrow> offset_mapping" where
  \<comment> \<open>a result always has the key \<open>offset\<close>, so \<open>get\<close> never takes its default;
      the default of \<open>max_offset\<close> in the call of \<open>validate_offset\<close> is 50\<close>
  "create_offset_mapping company document_name offset_result evidence_images method =
     \<lparr>map_document_name = document_name,
      map_offset = res_offset offset_result,
      map_confidence = res_confidence offset_result,
      map_samples_processed = res_samples_processed offset_result,
      map_samples_agreed = res_samples_agreed offset_result,
      map_method = method,
      map_evidence = res_evidence offset_result,
      map_evidence_images = evidence_images,
      map_warning = res_warning offset_result,
      map_message = res_message offset_result,
      map_offset_distribution = res_offset_distribution offset_result,
      map_validation =
        (if res_offset offset_result \<noteq> None
         then (case validate_offset (res_offset offset_result) 50 of
                 (valid, validation_msg) \<Rightarrow>
                   Some \<lparr>is_valid = valid, message = validation_msg\<rparr>)
         else None)\<rparr>"

section \<open>Label recognizer (\<^verbatim>\<open>ocr_detector.py\<close>)\<close>

subsection \<open>String methods\<close>

text \<open>
  A Python \<open>str\<close> is a sequence of code points; a \<open>char\<close> stands for a code point
  below 256. On these, \<open>str.isspace\<close> holds of the ASCII white space, the four
  separators \<open>0x1C\<close> to \<open>0x1F\<close>, \<open>0x85\<close> and \<open>0xA0\<close>, and
  \<open>str.isdigit\<close> holds of the ten ASCII digits and of the superscripts
  \<open>0xB2\<close>, \<open>0xB3\<close> and \<open>0xB9\<close>, which \<open>int\<close> rejects with
  \<open>ValueError\<close>. \<open>py_int\<close> is \<open>int\<close> on the strings that reach it here,
  which are capture groups \<open>\d+\<close> and tokens that \<open>isdigit\<close> accepts.
\<close>

definition isspace :: "char \<Rightarrow> bool" where
  "isspace c = (of_char c \<in> {9, 10, 11, 12, 13, 28, 29, 30, 31, 32, 133, 160 :: nat})"

definition strip :: "string \<Rightarrow> string" where
  "strip s = rev (dropWhile isspace (rev (dropWhile isspace s)))"

definition is_ascii_digit :: "char \<Rightarrow> bool" where
  "is_ascii_digit c = (48 \<le> (of_char c :: nat) \<and> (of_char c :: nat) \<le> 57)"

definition isdigit :: "string \<Rightarrow> bool" where
  "isdigit s =
     (s \<noteq> [] \<and> list_all (\<lambda>c. is_ascii_digit c \<or> of_char c \<in> {178, 179, 185 :: nat}) s)"

definition py_int :: "string \<Rightarrow> error + int" where
  "py_int s =
     (if s \<noteq> [] \<and> list_all is_ascii_digit s
      then Inr (foldl (\<lambda>a c. 10 * a + (of_char c - 48)) 0 s)
      else Inl ValueError)"

subsection \<open>Pattern strategy\<close>

definition bs :: string where
  \<comment> \<open>a backslash\<close>
  "bs = [CHR 0x5C]"

definition PAGE_PATTERNS :: "string list" where
  "PAGE_PATTERNS =
     [bs @ ''bPage['' @ bs @ ''s:'' @ bs @ ''.]*('' @ bs @ ''d+)'' @ bs @ ''b'',
      bs @ ''bP['' @ bs @ ''s:'' @ bs @ ''.]+('' @ bs @ ''d+)'' @ bs @ ''b'',
      ''[-|]'' @ bs @ ''s*('' @ bs @ ''d+)'' @ bs @ ''s*[-|]'',
      ''^'' @ bs @ ''s*('' @ bs @ ''d+)'' @ bs @ ''s*$'',
      bs @ ''b('' @ bs @ ''d+)'' @ bs @ ''s*(?:of|/)'' @ bs @ ''s*'' @ bs @ ''d+'' @ bs @ ''b'']"

text \<open>
  The regular-expression engine is a parameter: \<open>finditer pattern text\<close> is the list of
  the first capture groups of the matches of \<open>pattern\<close> in \<open>text\<close>, in the order of
  \<open>re.finditer\<close> with the flags \<open>MULTILINE | IGNORECASE\<close>.
\<close>

definition find_page_number_patterns :: "(string \<Rightarrow> string \<Rightarrow> string list) \<Rightarrow> string \<Rightarrow> int list" where
  "find_page_number_patterns finditer text =
     foldl (\<lambda>candidates pattern.
              foldl (\<lambda>candidates group1.
                       case py_int group1 of
                         Inl e \<Rightarrow> candidates
                       | Inr page_num \<Rightarrow>
                           if 1 \<le> page_num \<and> page_num \<le> 9999
                           then candidates @ [page_num] else candidates)
                candidates (finditer pattern text))
       [] PAGE_PATTERNS"

subsection \<open>Positional strategy\<close>

record ocr_data =
  ocr_text :: "string list option"
  ocr_top :: "int list option"
  ocr_conf :: "rat list option"

definition dict_list_get :: "'a list option \<Rightarrow> nat \<Rightarrow> error + 'a" where
  \<comment> \<open>\<open>ocr_data[key][i]\<close> for an index \<open>i\<close> that \<open>enumerate\<close> produced\<close>
  "dict_list_get entry i =
     (case entry of
        None \<Rightarrow> Inl KeyError
      | Some xs \<Rightarrow> if i < length xs then Inr (xs ! i) else Inl IndexError)"

fun int_ge_float :: "int \<Rightarrow> double \<Rightarrow> bool" where
  "int_ge_float n (Finite y) = (y \<le> of_int n)"
| "int_ge_float n NegInf = True"
| "int_ge_float n b = False"

fun int_le_float :: "int \<Rightarrow> double \<Rightarrow> bool" where
  "int_le_float n (Finite y) = (of_int n \<le> y)"
| "int_le_float n PosInf = True"
| "int_le_float n b = False"

definition literal_0_10 :: double where
  "literal_0_10 = round_double (10 / 100)"

definition literal_0_90 :: double where
  "literal_0_90 = round_double (90 / 100)"

fun positional_loop ::
  "ocr_data \<Rightarrow> double \<Rightarrow> double \<Rightarrow> nat \<Rightarrow> string list \<Rightarrow> int list \<Rightarrow> int list" where
  "positional_loop d header_threshold footer_threshold i [] candidates = candidates"
| "positional_loop d header_threshold footer_threshold i (word # words) candidates =
     positional_loop d header_threshold footer_threshold (Suc i) words
       (if strip word = [] then candidates
        else case dict_list_get (ocr_top d) i of
               Inl e \<Rightarrow> candidates
             | Inr top_coord \<Rightarrow>
                 (case dict_list_get (ocr_conf d) i of
                    Inl e \<Rightarrow> candidates
                  | Inr conf \<Rightarrow>
                      let in_footer = int_ge_float top_coord footer_threshold;
                          in_header = int_le_float top_coord header_threshold
                      in if \<not> (in_footer \<or> in_header) then candidates
                         else if isdigit (strip word)
                         then (case py_int (strip word) of
                                 Inl e \<Rightarrow> candidates
                               | Inr page_num \<Rightarrow>
                                   if 1 \<le> page_num \<and> page_num \<le> 9999 \<and> 50 < conf
                                   then candidates @ [page_num] else candidates)
                         else candidates))"

definition find_positional_page_numbers :: "ocr_data \<Rightarrow> int \<times> int \<Rightarrow> error + int list" where
  "find_positional_page_numbers d image_size =
     (case image_size of
        (width, height) \<Rightarrow>
          (case float_of_int height of
             Inl e \<Rightarrow> Inl e
           | Inr h \<Rightarrow>
               let header_threshold = float_mul h literal_0_10;
                   footer_threshold = float_mul h literal_0_90
               in case ocr_text d of
                    None \<Rightarrow> Inl KeyError
                  | Some words \<Rightarrow>
                      Inr (positional_loop d header_threshold footer_threshold 0 words [])))"

subsection \<open>\<open>detect_labeled_page_number\<close>\<close>

text \<open>
  The recognizer is the external OCR library: two functions of the page image, each
  returning its output or raising. The detector is modelled with \<open>verbose\<close> off.
\<close>

record 'p page_image =
  img_size :: "int \<times> int"
  img_pixels :: 'p

record 'p recognizer =
  image_to_string :: "'p page_image \<Rightarrow> error + string"
  image_to_data :: "'p page_image \<Rightarrow> error + ocr_data"

definition detect_labeled_page_number ::
  "'p recognizer \<Rightarrow> (string \<Rightarrow> string \<Rightarrow> string list) \<Rightarrow> 'p page_image \<Rightarrow> int option" where
  "detect_labeled_page_number ocr finditer img =
     (case image_to_string ocr img of
        Inl e \<Rightarrow> None
      | Inr text \<Rightarrow>
          (case image_to_data ocr img of
             Inl e \<Rightarrow> None
           | Inr data \<Rightarrow>
               let pattern_matches = find_page_number_patterns finditer text
               in case find_positional_page_numbers data (img_size img) of
                    Inl e \<Rightarrow> None
                  | Inr positional_matches \<Rightarrow>
                      (case positional_matches @ pattern_matches of
                         [] \<Rightarrow> None
                       | result # _ \<Rightarrow> Some result)))"

section \<open>Properties of the float operations\<close>

lemma pow2_power_int: "pow2 e = power_int 2 e"
  by (simp add: pow2_def power_int_def inverse_eq_divide power_one_over)

lemma pow2_pos: "0 < pow2 e"
  by (simp add: pow2_power_int)

lemma pow2_add: "pow2 (a + b) = pow2 a * pow2 b"
  by (simp add: pow2_power_int power_int_add)

lemma pow2_nat: "pow2 (int n) = 2 ^ n"
  by (simp add: pow2_def)

lemma pow2_mono: "a \<le> b \<Longrightarrow> pow2 a \<le> pow2 b"
  by (simp add: pow2_power_int power_int_increasing)

lemma pow2_le_D: "pow2 a \<le> pow2 b \<Longrightarrow> a \<le> b"
proof (rule ccontr)
  assume le: "pow2 a \<le> pow2 b" and "\<not> a \<le> b"
  then have "b < a" by simp
  then have "pow2 b < pow2 a"
    unfolding pow2_power_int by (rule power_int_strict_increasing) simp
  with le show False by simp
qed

lemma bit_length_upper: "n < 2 ^ bit_length n"
proof (induction n rule: bit_length.induct)
  case (1 n)
  show ?case
  proof (cases "n = 0")
    case True
    then show ?thesis by simp
  next
    case False
    with 1 have IH: "n div 2 < 2 ^ bit_length (n div 2)" by simp
    have bl: "bit_length n = Suc (bit_length (n div 2))"
      using False by (subst bit_length.simps) simp
    have "n < 2 * (n div 2 + 1)" by simp
    also have "\<dots> \<le> 2 * 2 ^ bit_length (n div 2)" using IH by simp
    finally show ?thesis unfolding bl by simp
  qed
qed

lemma bit_length_lower: "0 < n \<Longrightarrow> 2 ^ (bit_length n - 1) \<le> n"
proof (induction n rule: bit_length.induct)
  case (1 n)
  show ?case
  proof (cases "n div 2 = 0")
    case True
    with 1 have "n = 1" by auto
    then show ?thesis by (simp add: bit_length.simps)
  next
    case False
    then have pos: "0 < n div 2" by simp
    with 1 have IH: "2 ^ (bit_length (n div 2) - 1) \<le> n div 2" by simp
    have bl: "bit_length n = Suc (bit_length (n div 2))"
      using 1(2) by (subst bit_length.simps) simp
    have "0 < bit_length (n div 2)" using pos by (subst bit_length.simps) simp
    then have "(2::nat) ^ (bit_length n - 1) = 2 * 2 ^ (bit_length (n div 2) - 1)"
      unfolding bl by (cases "bit_length (n div 2)") simp_all
    also have "\<dots> \<le> 2 * (n div 2)" using IH by simp
    also have "\<dots> \<le> n" by simp
    finally show ?thesis .
  qed
qed

lemma floor_log2_lower:
  assumes "0 < x"
  shows "pow2 (floor_log2 x) \<le> x"
proof (cases "1 \<le> x")
  case True
  define n where "n = nat \<lfloor>x\<rfloor>"
  have n: "0 < n" "of_nat n \<le> x"
    using True by (simp_all add: n_def)
  have "0 < bit_length n" using n(1) by (subst bit_length.simps) simp
  then have "floor_log2 x = int (bit_length n - 1)"
    using True by (simp add: floor_log2_def n_def)
  then have "pow2 (floor_log2 x) = of_nat (2 ^ (bit_length n - 1))"
    by (simp add: pow2_nat)
  also have "\<dots> \<le> of_nat n"
    using bit_length_lower [OF n(1)] by (simp only: of_nat_le_iff)
  finally show ?thesis using n(2) by simp
next
  case False
  define c where "c = \<lceil>1 / x\<rceil>"
  define m where "m = nat (c - 1)"
  have inv: "1 < 1 / x" using False assms by simp
  then have "of_int 1 < 1 / x" by simp
  then have "1 < c" unfolding c_def by (simp only: less_ceiling_iff)
  then have m: "c = int m + 1" by (simp add: m_def)
  have "1 / x \<le> of_int c" unfolding c_def by simp
  also have "\<dots> = of_nat (m + 1)" unfolding m by simp
  also have "\<dots> \<le> of_nat (2 ^ bit_length m)"
    using bit_length_upper [of m] by (simp only: of_nat_le_iff)
  finally have "1 / x \<le> 2 ^ bit_length m" by simp
  then have "1 / 2 ^ bit_length m \<le> x"
    using assms by (simp add: field_simps)
  moreover have "floor_log2 x = - int (bit_length m)"
    using False by (simp add: floor_log2_def m_def c_def)
  ultimately show ?thesis
    by (cases "bit_length m = 0") (simp_all add: pow2_def)
qed

lemma round_half_even_le: "q \<le> of_int n \<Longrightarrow> round_half_even q \<le> n"
proof -
  assume le: "q \<le> of_int n"
  then have f: "\<lfloor>q\<rfloor> \<le> n" by (simp add: floor_le_iff) 
  show ?thesis
  proof (cases "\<lfloor>q\<rfloor> = n")
    case True
    then have "of_int n \<le> q" by (metis of_int_floor_le)
    with le have "q = of_int n" by simp
    then show ?thesis by (simp add: round_half_even_def)
  next
    case False
    with f have "\<lfloor>q\<rfloor> + 1 \<le> n" by simp
    then show ?thesis by (simp add: round_half_even_def Let_def)
  qed
qed

lemma round_half_even_ge: "of_int n \<le> q \<Longrightarrow> n \<le> round_half_even q"
proof -
  assume "of_int n \<le> q"
  then have "n \<le> \<lfloor>q\<rfloor>" by (simp add: le_floor_iff)
  then show ?thesis by (simp add: round_half_even_def Let_def)
qed

lemma round_double_bounded:
  assumes x: "\<bar>x\<bar> \<le> pow2 k" and k: "- 1022 \<le> k" "k \<le> 1023"
  shows "\<exists>y. round_double x = Finite y \<and> \<bar>y\<bar> \<le> pow2 k \<and> (0 \<le> x \<longrightarrow> 0 \<le> y)"
proof (cases "x = 0")
  case True
  then show ?thesis using pow2_pos [of k] by (simp add: round_double_def)
next
  case False
  define e where "e = max (floor_log2 \<bar>x\<bar>) (- 1022)"
  define u where "u = pow2 (e - 52)"
  define r where "r = round_half_even (x / u)"
  define N :: int where "N = 2 ^ nat (k - e + 52)"
  have u: "0 < u" by (simp add: u_def pow2_pos)
  have "pow2 (floor_log2 \<bar>x\<bar>) \<le> \<bar>x\<bar>"
    using False by (intro floor_log2_lower) simp
  with x have "pow2 (floor_log2 \<bar>x\<bar>) \<le> pow2 k" by simp
  then have "floor_log2 \<bar>x\<bar> \<le> k" by (rule pow2_le_D)
  with k have ek: "e \<le> k" by (simp add: e_def)
  then have "pow2 k = pow2 (int (nat (k - e + 52)) + (e - 52))" by simp
  also have "\<dots> = pow2 (int (nat (k - e + 52))) * pow2 (e - 52)"
    by (rule pow2_add)
  also have "\<dots> = of_int N * u"
    by (simp only: pow2_nat N_def u_def) simp
  finally have Nu: "pow2 k = of_int N * u" .
  have "\<bar>x / u\<bar> \<le> of_int N"
    using x u unfolding Nu by (simp add: field_simps)
  then have "x / u \<le> of_int N" "of_int (- N) \<le> x / u"
    unfolding abs_le_iff by simp_all
  then have "r \<le> N" "- N \<le> r"
    unfolding r_def by (auto intro: round_half_even_le round_half_even_ge)
  then have "\<bar>r\<bar> \<le> N" by simp
  then have "\<bar>of_int r :: rat\<bar> \<le> of_int N" by (metis of_int_abs of_int_le_iff)
  then have "\<bar>of_int r * u\<bar> \<le> of_int N * u"
    using u by (simp add: abs_mult)
  then have bound: "\<bar>of_int r * u\<bar> \<le> pow2 k" by (simp only: Nu)
  have "pow2 k < pow2 1024"
    unfolding pow2_power_int using k by (intro power_int_strict_increasing) simp_all
  with bound have fin: "\<not> pow2 1024 \<le> \<bar>of_int r * u\<bar>" by simp
  have rd: "round_double x = Finite (of_int r * u)"
    using False fin unfolding round_double_def Let_def r_def u_def e_def by simp
  have "0 \<le> x \<Longrightarrow> 0 \<le> of_int r * u"
  proof -
    assume "0 \<le> x"
    then have "of_int 0 \<le> x / u" using u by simp
    then have "0 \<le> r" unfolding r_def by (rule round_half_even_ge)
    then show ?thesis using u by simp
  qed
  with rd bound show ?thesis by simp
qed

lemma int_truediv_ratio:
  assumes "0 < a" "a \<le> b"
  shows "\<exists>q. int_truediv a b = Inr (Finite q) \<and> 0 \<le> q \<and> q \<le> 1"
proof -
  have "\<bar>of_int a / of_int b :: rat\<bar> \<le> pow2 0"
    using assms by (simp add: pow2_def)
  from round_double_bounded [OF this] obtain y
    where "round_double (of_int a / of_int b) = Finite y" "\<bar>y\<bar> \<le> pow2 0" "0 \<le> y"
    using assms by auto
  then show ?thesis using assms by (simp add: int_truediv_def pow2_def)
qed

lemma pow2_less_D: "pow2 a < pow2 b \<Longrightarrow> a < b"
proof (rule ccontr)
  assume less: "pow2 a < pow2 b" and "\<not> a < b"
  then have "b \<le> a" by simp
  then have "pow2 b \<le> pow2 a" by (rule pow2_mono)
  with less show False by simp
qed

lemma pow2_times: "2 ^ n * pow2 e = pow2 (int n + e)"
  unfolding pow2_add by (simp only: pow2_nat)

lemma pow2_neg_nat: "pow2 (- int j) = 1 / 2 ^ j"
proof (cases "j = 0")
  case True
  then show ?thesis by (simp add: pow2_def)
next
  case False
  then have "\<not> 0 \<le> - int j" by simp
  then show ?thesis by (simp only: pow2_def if_False minus_minus nat_int)
qed

lemma floor_log2_upper:
  assumes "0 < x"
  shows "x < pow2 (floor_log2 x + 1)"
proof (cases "1 \<le> x")
  case True
  define n where "n = nat \<lfloor>x\<rfloor>"
  have n: "0 < n" "x < of_nat n + 1"
    using True by (simp_all add: n_def) linarith
  have "0 < bit_length n" using n(1) by (subst bit_length.simps) simp
  then have "floor_log2 x + 1 = int (bit_length n)"
    using True by (simp add: floor_log2_def n_def)
  then have "pow2 (floor_log2 x + 1) = of_nat (2 ^ bit_length n)"
    by (simp add: pow2_nat)
  moreover have "n + 1 \<le> 2 ^ bit_length n"
    using bit_length_upper [of n] by simp
  then have "of_nat (n + 1) \<le> (of_nat (2 ^ bit_length n) :: rat)"
    by (simp only: of_nat_le_iff)
  ultimately show ?thesis using n(2) by simp
next
  case False
  define c where "c = \<lceil>1 / x\<rceil>"
  define m where "m = nat (c - 1)"
  have inv: "1 < 1 / x" using False assms by simp
  then have "of_int 1 < 1 / x" by simp
  then have "1 < c" unfolding c_def by (simp only: less_ceiling_iff)
  then have m: "c = int m + 1" "0 < m" by (simp_all add: m_def)
  have "of_int c - 1 < 1 / x" unfolding c_def by linarith
  then have mx: "of_nat m < 1 / x" unfolding m by simp
  have fl: "floor_log2 x = - int (bit_length m)"
    using False by (simp add: floor_log2_def m_def c_def)
  have "0 < bit_length m" using m(2) by (subst bit_length.simps) simp
  then have "floor_log2 x + 1 = - int (bit_length m - 1)" unfolding fl by simp
  then have p: "pow2 (floor_log2 x + 1) = 1 / 2 ^ (bit_length m - 1)"
    by (simp only: pow2_neg_nat)
  have "(of_nat (2 ^ (bit_length m - 1)) :: rat) \<le> of_nat m"
    using bit_length_lower [OF m(2)] by (simp only: of_nat_le_iff)
  from this mx have "(of_nat (2 ^ (bit_length m - 1)) :: rat) < 1 / x" by (rule le_less_trans)
  then have "2 ^ (bit_length m - 1) < 1 / x" by simp
  then have "x < 1 / 2 ^ (bit_length m - 1)"
    using assms by (simp add: field_simps)
  then show ?thesis unfolding p .
qed

lemma round_half_even_near: "0 \<le> d \<Longrightarrow> d < 1 / 2 \<Longrightarrow> round_half_even (of_int n + d) = n"
proof -
  assume d: "0 \<le> d" "d < 1 / 2"
  then have "\<lfloor>of_int n + d\<rfloor> = n" by (simp add: floor_unique)
  then show ?thesis using d by (simp add: round_half_even_def Let_def)
qed

text \<open>Rounding does not cross a representable number.\<close>

lemma round_double_upper:
  assumes x: "0 < x" "x \<le> of_int N * pow2 (k - 52)" and N: "N < 2 ^ 53"
    and k: "- 1022 \<le> k" "k \<le> 1023"
  shows "\<exists>y. round_double x = Finite y \<and> 0 \<le> y \<and> y \<le> of_int N * pow2 (k - 52)"
proof -
  define e where "e = max (floor_log2 \<bar>x\<bar>) (- 1022)"
  define u where "u = pow2 (e - 52)"
  define r where "r = round_half_even (x / u)"
  define M :: int where "M = N * 2 ^ nat (k - e)"
  have u: "0 < u" by (simp add: u_def pow2_pos)
  have "of_int N * pow2 (k - 52) < 2 ^ 53 * pow2 (k - 52)"
    using N pow2_pos [of "k - 52"] by (simp add: of_int_less_numeral_power_cancel_iff)
  also have "\<dots> = pow2 (int 53 + (k - 52))" by (rule pow2_times)
  also have "int 53 + (k - 52) = k + 1" by simp
  finally have B: "of_int N * pow2 (k - 52) < pow2 (k + 1)" .
  have "pow2 (floor_log2 \<bar>x\<bar>) \<le> \<bar>x\<bar>" using x(1) by (intro floor_log2_lower) simp
  with x B have "pow2 (floor_log2 \<bar>x\<bar>) < pow2 (k + 1)" by simp
  then have "floor_log2 \<bar>x\<bar> < k + 1" by (rule pow2_less_D)
  with k have ek: "e \<le> k" by (simp add: e_def)
  then have "pow2 (k - 52) = pow2 (int (nat (k - e)) + (e - 52))" by simp
  also have "\<dots> = 2 ^ nat (k - e) * u" unfolding pow2_add by (simp only: pow2_nat u_def)
  finally have Mu: "of_int N * pow2 (k - 52) = of_int M * u" by (simp add: M_def)
  have "x / u \<le> of_int M" using x(2) u unfolding Mu by (simp add: field_simps)
  then have "r \<le> M" unfolding r_def by (rule round_half_even_le)
  then have "of_int r * u \<le> of_int M * u" using u by simp
  then have upper: "of_int r * u \<le> of_int N * pow2 (k - 52)" by (simp only: Mu)
  have "of_int 0 \<le> x / u" using x(1) u by simp
  then have "0 \<le> r" unfolding r_def by (rule round_half_even_ge)
  then have lower: "0 \<le> of_int r * u" using u by simp
  have "pow2 (k + 1) \<le> pow2 1024" using k by (intro pow2_mono) simp
  with upper B lower have fin: "\<not> pow2 1024 \<le> \<bar>of_int r * u\<bar>" by simp
  have "round_double x = Finite (of_int r * u)"
    using x(1) fin unfolding round_double_def Let_def r_def u_def e_def by simp
  with upper lower show ?thesis by simp
qed

lemma round_double_lower:
  assumes x: "of_int N * pow2 (k - 52) \<le> x" "x \<le> pow2 1023" and N: "0 < N" "N < 2 ^ 53"
    and k: "- 1022 \<le> k"
  shows "\<exists>y. round_double x = Finite y \<and> of_int N * pow2 (k - 52) \<le> y"
proof -
  have pos: "0 < x" using x(1) N(1) pow2_pos [of "k - 52"]
    by (meson less_le_trans mult_pos_pos of_int_0_less_iff)
  from round_double_bounded [of x 1023] x(2) pos obtain y
    where y: "round_double x = Finite y" by auto
  define e where "e = max (floor_log2 \<bar>x\<bar>) (- 1022)"
  define u where "u = pow2 (e - 52)"
  define r where "r = round_half_even (x / u)"
  have u: "0 < u" by (simp add: u_def pow2_pos)
  have "round_double x = (if pow2 1024 \<le> \<bar>of_int r * u\<bar> then PosInf else Finite (of_int r * u))"
    using pos unfolding round_double_def Let_def r_def u_def e_def by simp
  with y have yr: "y = of_int r * u" by (simp split: if_splits)
  have "of_int N * pow2 (k - 52) \<le> of_int r * u"
  proof (cases "e \<le> k")
    case True
    define M :: int where "M = N * 2 ^ nat (k - e)"
    from True have "pow2 (k - 52) = pow2 (int (nat (k - e)) + (e - 52))" by simp
    also have "\<dots> = 2 ^ nat (k - e) * u" unfolding pow2_add by (simp only: pow2_nat u_def)
    finally have Mu: "of_int N * pow2 (k - 52) = of_int M * u" by (simp add: M_def)
    have "of_int M \<le> x / u" using x(1) u unfolding Mu by (simp add: field_simps)
    then have "M \<le> r" unfolding r_def by (rule round_half_even_ge)
    then have "of_int M * u \<le> of_int r * u" using u by simp
    then show ?thesis by (simp only: Mu)
  next
    case False
    with k have e: "e = floor_log2 \<bar>x\<bar>" "k + 1 \<le> e"
      by (auto simp: e_def max_def split: if_splits)
    have "pow2 e \<le> x" unfolding e(1) using pos floor_log2_lower [of "\<bar>x\<bar>"] by simp
    moreover have "pow2 e = pow2 (int 52 + (e - 52))" by simp
    then have "pow2 e = of_int (2 ^ 52) * u"
      unfolding pow2_times [symmetric] u_def by simp
    ultimately have "of_int (2 ^ 52) \<le> x / u" using u by (simp add: field_simps)
    then have "2 ^ 52 \<le> r" unfolding r_def by (rule round_half_even_ge)
    then have "of_int (2 ^ 52) * u \<le> of_int r * u" using u by simp
    then have "pow2 e \<le> of_int r * u" using \<open>pow2 e = of_int (2 ^ 52) * u\<close> by simp
    moreover have "of_int N * pow2 (k - 52) < 2 ^ 53 * pow2 (k - 52)"
      using N pow2_pos [of "k - 52"] by (simp add: of_int_less_numeral_power_cancel_iff)
    then have lt: "of_int N * pow2 (k - 52) < pow2 (int 53 + (k - 52))"
      unfolding pow2_times [symmetric] .
    have "int 53 + (k - 52) = k + 1" by simp
    with lt have "of_int N * pow2 (k - 52) < pow2 (k + 1)" by (simp only:)
    moreover have "pow2 (k + 1) \<le> pow2 e" using e(2) by (rule pow2_mono)
    ultimately show ?thesis by linarith
  qed
  with y yr show ?thesis by simp
qed

lemma round_double_exact:
  assumes N: "0 < N" "N < 2 ^ 53" and k: "- 1022 \<le> k" "k \<le> 1022"
  shows "round_double (of_int N * pow2 (k - 52)) = Finite (of_int N * pow2 (k - 52))"
proof -
  let ?B = "of_int N * pow2 (k - 52)"
  have pos: "0 < ?B" using N(1) pow2_pos [of "k - 52"] by simp
  from k have k': "k \<le> 1023" by simp
  from round_double_upper [OF pos order_refl N(2) k(1) k'] obtain y
    where y: "round_double ?B = Finite y" "y \<le> ?B" by auto
  have "?B \<le> 2 ^ 53 * pow2 (k - 52)"
    using N pow2_pos [of "k - 52"] by (simp add: of_int_le_numeral_power_cancel_iff)
  also have "\<dots> = pow2 (int 53 + (k - 52))" by (rule pow2_times)
  also have "\<dots> \<le> pow2 1023" using k by (intro pow2_mono) simp
  finally have "?B \<le> pow2 1023" .
  from round_double_lower [OF order_refl this N k(1)] y show ?thesis by simp
qed

lemma round_double_near:
  assumes M: "0 < M" "M < 2 ^ 53"
    and x: "of_int M \<le> x" "x < of_int M * (1 + pow2 (- 54))"
  shows "round_double x = Finite (of_int M)"
proof -
  define e where "e = floor_log2 \<bar>x\<bar>"
  define u where "u = pow2 (e - 52)"
  define K :: int where "K = M * 2 ^ nat (52 - e)"
  have u: "0 < u" by (simp add: u_def pow2_pos)
  have Mq: "(1 :: rat) \<le> of_int M" "(of_int M :: rat) \<le> 2 ^ 53 - 1"
    using M by (simp_all add: of_int_le_numeral_power_cancel_iff flip: of_int_diff) 
  have pos: "0 < x" "1 \<le> x" using x(1) Mq(1) by simp_all
  have lo: "pow2 e \<le> x" and hi: "x < pow2 (e + 1)"
    unfolding e_def using pos(1) floor_log2_lower [of "\<bar>x\<bar>"] floor_log2_upper [of "\<bar>x\<bar>"]
    by simp_all
  have "pow2 (- 54) \<le> 1" by (simp add: pow2_def)
  have "x < of_int M + of_int M * pow2 (- 54)" using x(2) by (simp add: algebra_simps)
  also have "\<dots> \<le> (2 ^ 53 - 1) + (2 ^ 53 - 1) * pow2 (- 54)"
    using Mq(2) pow2_pos [of "- 54"] by (intro add_mono mult_right_mono) simp_all
  also have "\<dots> < pow2 (int 53)" by (simp add: pow2_def)
  finally have "pow2 e < pow2 (int 53)" using lo by simp
  then have e53: "e < 53" using pow2_less_D by fastforce
  have "pow2 0 \<le> x" using pos(2) by (simp add: pow2_def)
  with hi have "pow2 0 < pow2 (e + 1)" by simp
  then have e0: "0 \<le> e" using pow2_less_D [of 0 "e + 1"] by simp
  have "2 ^ nat (52 - e) * u = pow2 (int (nat (52 - e)) + (e - 52))"
    unfolding u_def by (rule pow2_times)
  also have "\<dots> = 1" using e53 by (simp add: pow2_def)
  finally have inv: "2 ^ nat (52 - e) * u = 1" .
  then have Ku: "of_int K * u = of_int M" by (simp add: K_def)
  define d where "d = x / u - of_int K"
  have xu: "x / u = of_int K + d" by (simp add: d_def)
  have "of_int K \<le> x / u" using x(1) u by (simp add: field_simps flip: Ku)
  then have d0: "0 \<le> d" by (simp add: d_def)
  have "int 53 + (e - 52) = e + 1" by simp
  then have "pow2 (e + 1) = pow2 (int 53 + (e - 52))" by (simp only:)
  also have "\<dots> = 2 ^ 53 * u" unfolding u_def by (rule pow2_times [symmetric])
  finally have "x < 2 ^ 53 * u" using hi by simp
  with x(1) have Mu: "of_int M < 2 ^ 53 * u" by simp
  have "x - of_int M < of_int M * pow2 (- 54)" using x(2) by (simp add: algebra_simps)
  also have "\<dots> < 2 ^ 53 * u * pow2 (- 54)"
    using Mu pow2_pos [of "- 54"] by (intro mult_strict_right_mono)
  also have "\<dots> = u / 2" by (simp add: pow2_def)
  finally have "(x - of_int M) / u < 1 / 2" using u by (simp add: field_simps)
  moreover have "(x - of_int M) / u = d"
    unfolding d_def using u by (simp add: field_simps flip: Ku)
  ultimately have d1: "d < 1 / 2" by simp
  have r: "round_half_even (x / u) = K" unfolding xu using d0 d1 by (rule round_half_even_near)
  have emax: "max (floor_log2 \<bar>x\<bar>) (- 1022) = e" using e0 by (simp add: e_def)
  have fin:  "\<not> pow2 1024 \<le> \<bar>of_int M :: rat\<bar>"
  proof -
    have "(of_int M :: rat) < 2 ^ 53" using Mq(2) by linarith
    also have "(2 :: rat) ^ 53 = pow2 (int 53)" by (simp only: pow2_nat)
    also have "\<dots> \<le> pow2 1024" by (intro pow2_mono) simp
    finally show ?thesis using M(1) by simp
  qed
  have y: "of_int (round_half_even (x / u)) * u = of_int M" unfolding r by (rule Ku)
  have "round_double x =
          (if pow2 1024 \<le> \<bar>of_int (round_half_even (x / u)) * u\<bar> then PosInf
           else Finite (of_int (round_half_even (x / u)) * u))"
    using pos(1) unfolding round_double_def emax Let_def u_def by simp
  then show ?thesis unfolding y using fin by simp
qed

lemma pow2_zero: "pow2 0 = 1"
  by (simp add: pow2_def)

text \<open>Evaluation of the float operations on numerals.\<close>

lemma floor_rat_numeral_div: "\<lfloor>numeral a / numeral b :: rat\<rfloor> = numeral a div numeral b"
  using floor_divide_of_int_eq [of "numeral a" "numeral b", where ?'a = rat] by simp

lemma ceiling_rat_numeral_div: "\<lceil>numeral a / numeral b :: rat\<rceil> = - (- numeral a div numeral b)"
  unfolding ceiling_def
  using floor_divide_of_int_eq [of "- numeral a" "numeral b", where ?'a = rat] by simp

lemma bit_length_numeral:
  "bit_length 0 = 0"
  "bit_length (Suc 0) = 1"
  "bit_length 1 = 1"
  "bit_length (numeral Num.One) = 1"
  "bit_length (numeral (Num.Bit0 n)) = Suc (bit_length (numeral n))"
  "bit_length (numeral (Num.Bit1 n)) = Suc (bit_length (numeral n))"
  by (subst bit_length.simps, simp add: numeral_Bit0_div_2 numeral_Bit1_div_2)+

lemmas float_eval =
  int_truediv_def float_of_int_def round_double_def floor_log2_def round_half_even_def
  pow2_def bit_length_numeral Let_def floor_rat_numeral_div ceiling_rat_numeral_div

text \<open>Exact values: integers, the literals, and the comparisons of the modules.\<close>

lemma float_of_int_exact:
  assumes "0 \<le> n" "n < 2 ^ 53"
  shows "float_of_int n = Inr (Finite (of_int n))"
proof (cases "n = 0")
  case True
  then show ?thesis by (simp add: float_of_int_def round_double_def)
next
  case False
  with assms have "0 < n" by simp
  from round_double_exact [OF this assms(2), of 52]
  show ?thesis by (simp add: float_of_int_def pow2_def)
qed

lemma literal_0_66_value: "literal_0_66 = Finite (of_int 5944751508129055 * pow2 (- 1 - 52))"
  by (simp add: literal_0_66_def float_eval)

lemma literal_0_10_value: "literal_0_10 = Finite (3602879701896397 / 36028797018963968)"
  by (simp add: literal_0_10_def float_eval)

lemma literal_0_90_value: "literal_0_90 = Finite (8106479329266893 / 9007199254740992)"
  by (simp add: literal_0_90_def float_eval)

lemma int_truediv_one_iff:
  assumes c: "0 < c" "c \<le> t" and t: "t \<le> 2 ^ 53" and q: "int_truediv c t = Inr (Finite q)"
  shows "q = 1 \<longleftrightarrow> c = t"
proof
  assume "c = t"
  with c q show "q = 1" by (simp add: float_eval)
next
  assume q1: "q = 1"
  show "c = t"
  proof (rule ccontr)
    assume "c \<noteq> t"
    with c have lt: "c + 1 \<le> t" by simp
    have tpos: "0 < (of_int t :: rat)" using c by simp
    have "(of_int c :: rat) * 2 ^ 53 \<le> (of_int t - 1) * 2 ^ 53"
      using lt by simp
    also have "\<dots> \<le> of_int t * (2 ^ 53 - 1)"
    proof -
      have "(of_int t :: rat) \<le> of_int (2 ^ 53)" using t by (simp only: of_int_le_iff)
      then show ?thesis by (simp add: algebra_simps)
    qed
    finally have "(of_int c :: rat) / of_int t \<le> (2 ^ 53 - 1) / 2 ^ 53"
      using tpos by (simp add: field_simps)
    also have "\<dots> = of_int (2 ^ 53 - 1) * pow2 (- 1 - 52)" by (simp add: pow2_def)
    finally have le: "(of_int c :: rat) / of_int t \<le> of_int (2 ^ 53 - 1) * pow2 (- 1 - 52)" .
    have pos: "0 < (of_int c :: rat) / of_int t" using c by simp
    from round_double_upper [OF pos le] obtain y
      where "round_double (of_int c / of_int t) = Finite y" "y \<le> of_int (2 ^ 53 - 1) * pow2 (- 1 - 52)"
      by auto
    moreover have "of_int (2 ^ 53 - 1) * pow2 (- 1 - 52) < 1" by (simp add: pow2_def)
    ultimately have "q < 1" using q c by (simp add: int_truediv_def split: if_splits)
    with q1 show False by simp
  qed
qed

lemma int_truediv_ge_066_iff:
  assumes c: "0 < c" "c \<le> t" and t: "t \<le> 2 ^ 46" and q: "int_truediv c t = Inr (Finite q)"
  shows "float_ge (Finite q) literal_0_66 \<longleftrightarrow> 66 * t \<le> 100 * c"
proof -
  let ?x = "(of_int c :: rat) / of_int t"
  have tpos: "0 < (of_int t :: rat)" using c by simp
  have pos: "0 < ?x" using c by simp
  have rd: "round_double ?x = Finite q"
    using q c by (simp add: int_truediv_def split: if_splits double.splits)
  have p53: "pow2 (- 1 - 52) = 1 / 9007199254740992" by (simp add: pow2_def)
  show ?thesis
  proof (cases "66 * t \<le> 100 * c")
    case True
    have "of_int 5944751508129055 * pow2 (- 1 - 52) \<le> q"
    proof (cases "66 * t = 100 * c")
      case True
      then have "(of_int (66 * t) :: rat) = of_int (100 * c)" by (simp only:)
      then have "?x = 66 / 100" using tpos by (simp add: field_simps)
      with rd show ?thesis by (simp add: float_eval)
    next
      case False
      with True have "66 * t + 1 \<le> 100 * c" by simp
      with t have "5944751508129055 * t \<le> 9007199254740992 * c" by simp
      then have "(of_int (5944751508129055 * t) :: rat) \<le> of_int (9007199254740992 * c)"
        by (simp only: of_int_le_iff)
      then have le: "of_int 5944751508129055 * pow2 (- 1 - 52) \<le> ?x"
        unfolding p53 using tpos by (simp add: field_simps)
      have "?x \<le> 1" using c by simp
      then have "?x \<le> pow2 1023" using pow2_mono [of 0 1023] by (simp add: pow2_def)
      from round_double_lower [OF le this] rd show ?thesis by simp
    qed
    with True show ?thesis by (simp add: literal_0_66_value)
  next
    case False
    then have "100 * c + 1 \<le> 66 * t" by simp
    with t have "9007199254740992 * c \<le> 5944751508129054 * t" by simp
    then have "(of_int (9007199254740992 * c) :: rat) \<le> of_int (5944751508129054 * t)"
      by (simp only: of_int_le_iff)
    then have le: "?x \<le> of_int 5944751508129054 * pow2 (- 1 - 52)"
      unfolding p53 using tpos by (simp add: field_simps)
    from round_double_upper [OF pos le] rd
    have "q \<le> of_int 5944751508129054 * pow2 (- 1 - 52)" by simp
    then have "q < of_int 5944751508129055 * pow2 (- 1 - 52)" unfolding p53 by simp
    with False show ?thesis by (simp add: literal_0_66_value)
  qed
qed

lemma header_threshold_exact:
  assumes h: "0 \<le> height" "height < 2 ^ 31"
  shows "int_le_float t (float_mul (Finite (of_int height)) literal_0_10) \<longleftrightarrow> 10 * t \<le> height"
proof (cases "height = 0")
  case True
  then show ?thesis by (simp add: literal_0_10_value round_double_def)
next
  case False
  define p :: rat where "p = of_int height * (3602879701896397 / 36028797018963968)"
  have hq: "0 < (of_int height :: rat)" "(of_int height :: rat) \<le> 2 ^ 31"
    using h False by (simp_all add: of_int_le_numeral_power_cancel_iff)
  have p: "0 < p" "p \<le> 2 ^ 31" "of_int height / 10 \<le> p"
    "p \<le> of_int height / 10 + 1 / 2 ^ 20"
    using hq unfolding p_def by simp_all
  have "p \<le> pow2 (int 31)" using p(2) by (simp only: pow2_nat)
  also have "\<dots> \<le> pow2 1023" by (intro pow2_mono) simp
  finally have p1023: "p \<le> pow2 1023" .
  from round_double_bounded [of p 1023] p1023 p(1) obtain y
    where y: "round_double p = Finite y" "0 \<le> y" by auto
  have thr: "float_mul (Finite (of_int height)) literal_0_10 = Finite y"
    unfolding literal_0_10_value float_mul.simps p_def [symmetric] by (rule y(1))
  have "of_int t \<le> y \<longleftrightarrow> 10 * t \<le> height"
  proof
    assume le: "10 * t \<le> height"
    show "of_int t \<le> y"
    proof (cases "0 < t")
      case True
      have "(of_int (10 * t) :: rat) \<le> of_int height" using le by (simp only: of_int_le_iff)
      then have "of_int t * pow2 (52 - 52) \<le> p" using p(3) by (simp add: pow2_def)
      moreover have "t < 2 ^ 53" using le h by simp
      ultimately show ?thesis
        using round_double_lower [of t 52 p] p1023 True y by (simp add: pow2_zero)
    next
      case False
      then have "(of_int t :: rat) \<le> 0" by simp
      with y(2) show ?thesis by simp
    qed
  next
    assume ty: "of_int t \<le> y"
    show "10 * t \<le> height"
    proof (rule ccontr)
      assume "\<not> 10 * t \<le> height"
      then have t: "height + 1 \<le> 10 * t" by simp
      define m where "m = (height + 10) div 10"
      have m: "height + 1 \<le> 10 * m" "m \<le> t" "0 < m" "m < 2 ^ 31"
        using t h unfolding m_def by simp_all
      have "(of_int (height + 1) :: rat) \<le> of_int (10 * m)"
        using m(1) by (simp only: of_int_le_iff)
      then have "of_int height / 10 + 1 / 2 ^ 20 \<le> of_int m - (1 / 2 ^ 20 :: rat)"
        by simp
      with p(4) have "p \<le> of_int m - 1 / 2 ^ 20" by simp
      also have "\<dots> = of_int (m * 2 ^ 20 - 1) * pow2 (32 - 52)" by (simp add: pow2_def field_simps)
      finally have le: "p \<le> of_int (m * 2 ^ 20 - 1) * pow2 (32 - 52)" .
      have "m * 2 ^ 20 - 1 < 2 ^ 53" using m(4) by simp
      from round_double_upper [OF p(1) le this] y
      have "y \<le> of_int (m * 2 ^ 20 - 1) * pow2 (32 - 52)" by simp
      also have "\<dots> = of_int m - 1 / 2 ^ 20" by (simp add: pow2_def field_simps)
      also have "\<dots> < of_int m" by simp
      also have "\<dots> \<le> of_int t" using m(2) by simp
      finally show False using ty by simp
    qed
  qed
  with thr show ?thesis by simp
qed

lemma footer_threshold_exact:
  assumes h: "0 \<le> height" "height < 2 ^ 31"
  shows "int_ge_float t (float_mul (Finite (of_int height)) literal_0_90) \<longleftrightarrow> 9 * height \<le> 10 * t"
proof (cases "height = 0")
  case True
  then show ?thesis by (simp add: literal_0_90_value round_double_def)
next
  case False
  define p :: rat where "p = of_int height * (8106479329266893 / 9007199254740992)"
  have hq: "0 < (of_int height :: rat)" "(of_int height :: rat) \<le> 2 ^ 31"
    using h False by (simp_all add: of_int_le_numeral_power_cancel_iff)
  have p: "0 < p" "p \<le> 2 ^ 31" "9 * of_int height / 10 \<le> p"
    "p \<le> 9 * of_int height / 10 + 1 / 2 ^ 20"
    using hq unfolding p_def by simp_all
  have "p \<le> pow2 (int 31)" using p(2) by (simp only: pow2_nat)
  also have "\<dots> \<le> pow2 1023" by (intro pow2_mono) simp
  finally have p1023: "p \<le> pow2 1023" .
  from round_double_bounded [of p 1023] p1023 p(1) obtain y
    where y: "round_double p = Finite y" "0 \<le> y" by auto
  have thr: "float_mul (Finite (of_int height)) literal_0_90 = Finite y"
    unfolding literal_0_90_value float_mul.simps p_def [symmetric] by (rule y(1))
  have "y \<le> of_int t \<longleftrightarrow> 9 * height \<le> 10 * t"
  proof
    assume le: "9 * height \<le> 10 * t"
    define m where "m = (9 * height + 9) div 10"
    have m: "9 * height \<le> 10 * m" "m \<le> t" "0 < m" "m < 2 ^ 31"
      using le h False unfolding m_def by simp_all
    have "y \<le> of_int m"
    proof (cases "9 * height = 10 * m")
      case True
      then have "(of_int (9 * height) :: rat) = of_int (10 * m)" by (simp only:)
      then have hm: "(of_int height :: rat) = 10 * of_int m / 9" by simp
      have mq: "0 < (of_int m :: rat)" using m(3) by simp
      have "of_int m \<le> p" "p < of_int m * (1 + pow2 (- 54))"
        unfolding p_def hm using mq by (simp_all add: pow2_def field_simps)
      moreover have "m < 2 ^ 53" using m(4) by simp
      ultimately have "round_double p = Finite (of_int m)"
        using m(3) by (intro round_double_near)
      with y show ?thesis by simp
    next
      case False
      with m(1) have "9 * height + 1 \<le> 10 * m" by simp
      then have "(of_int (9 * height + 1) :: rat) \<le> of_int (10 * m)" by (simp only: of_int_le_iff)
      then have "9 * of_int height / 10 + 1 / 2 ^ 20 \<le> (of_int m :: rat)" by simp
      with p(4) have "p \<le> of_int m * pow2 (52 - 52)" by (simp add: pow2_zero)
      moreover have "m < 2 ^ 53" using m(4) by simp
      ultimately show ?thesis
        using round_double_upper [of p m 52] p(1) y by (simp add: pow2_zero)
    qed
    also have "\<dots> \<le> of_int t" using m(2) by simp
    finally show "y \<le> of_int t" .
  next
    assume yt: "y \<le> of_int t"
    show "9 * height \<le> 10 * t"
    proof (rule ccontr)
      assume "\<not> 9 * height \<le> 10 * t"
      then have t: "10 * t + 1 \<le> 9 * height" by simp
      have t0: "0 \<le> t"
      proof (rule ccontr)
        assume "\<not> 0 \<le> t"
        then have "(of_int t :: rat) < 0" by simp
        with y(2) yt show False by simp
      qed
      have "(of_int (10 * t + 1) :: rat) \<le> of_int (9 * height)" using t by (simp only: of_int_le_iff)
      then have "of_int t + 1 / 2 ^ 20 \<le> 9 * (of_int height :: rat) / 10" by simp
      with p(3) have "of_int t + 1 / 2 ^ 20 \<le> p" by simp
      moreover have "of_int (t * 2 ^ 20 + 1) * pow2 (32 - 52) = of_int t + (1 / 2 ^ 20 :: rat)"
        by (simp add: pow2_def field_simps)
      ultimately have le: "of_int (t * 2 ^ 20 + 1) * pow2 (32 - 52) \<le> p" by simp
      have "0 < t * 2 ^ 20 + 1" "t * 2 ^ 20 + 1 < 2 ^ 53" using t0 t h by simp_all
      from round_double_lower [OF le p1023 this] y
      have "of_int (t * 2 ^ 20 + 1) * pow2 (32 - 52) \<le> y" by simp
      then have "of_int t + 1 / 2 ^ 20 \<le> y"
        by (simp add: pow2_def field_simps)
      with yt show False by simp
    qed
  qed
  with thr show ?thesis by simp
qed

section \<open>Properties of the counter\<close>

lemma counter_incr_keys:
  "map fst (counter_incr x c) = (if x \<in> fst ` set c then map fst c else map fst c @ [x])"
  by (induction c) force+

lemma counter_incr_lookup:
  "map_of (counter_incr x c) =
     (map_of c)(x \<mapsto> (case map_of c x of None \<Rightarrow> 1 | Some n \<Rightarrow> n + 1))"
  by (induction c) (auto simp: fun_eq_iff)

lemma counter_incr_sum:
  "sum_list (map snd (counter_incr x c)) = Suc (sum_list (map snd c))"
  by (induction c) auto

lemma Counter_snoc: "Counter (xs @ [x]) = counter_incr x (Counter xs)"
  by (simp add: Counter_def)

lemma Counter_Nil: "Counter [] = []"
  by (simp add: Counter_def)

lemma Counter_key_set: "fst ` set (Counter xs) = set xs"
proof (induction xs rule: rev_induct)
  case Nil
  show ?case by (simp add: Counter_Nil)
next
  case (snoc x xs)
  have "set (map fst (Counter (xs @ [x]))) = set (xs @ [x])"
    unfolding Counter_snoc counter_incr_keys using snoc by auto
  then show ?case by simp
qed

lemma Counter_distinct: "distinct (map fst (Counter xs))"
proof (induction xs rule: rev_induct)
  case Nil
  show ?case by (simp add: Counter_Nil)
next
  case (snoc x xs)
  then show ?case
    unfolding Counter_snoc counter_incr_keys by auto
qed

lemma Counter_lookup:
  "map_of (Counter xs) k = (if k \<in> set xs then Some (count_list xs k) else None)"
proof (induction xs rule: rev_induct)
  case Nil
  show ?case by (simp add: Counter_Nil)
next
  case (snoc x xs)
  then show ?case
    unfolding Counter_snoc counter_incr_lookup by (auto simp: count_list_0_iff)
qed

lemma Counter_sum: "sum_list (map snd (Counter xs)) = length xs"
  by (induction xs rule: rev_induct) (simp_all add: Counter_Nil Counter_snoc counter_incr_sum)

lemma Counter_first_occurrence:
  "set (takeWhile (\<lambda>k. k \<noteq> c) (map fst (Counter xs))) = set (takeWhile (\<lambda>y. y \<noteq> c) xs)"
proof (induction xs rule: rev_induct)
  case Nil
  show ?case by (simp add: Counter_Nil)
next
  case (snoc x xs)
  define ks where "ks = map fst (Counter xs)"
  define ks' where "ks' = map fst (Counter (xs @ [x]))"
  have keys: "set ks = set xs"
    using Counter_key_set [of xs] by (simp add: ks_def)
  have step: "ks' = (if x \<in> set xs then ks else ks @ [x])"
    unfolding ks'_def ks_def Counter_snoc counter_incr_keys
    using Counter_key_set [of xs] by simp
  have IH: "set (takeWhile (\<lambda>k. k \<noteq> c) ks) = set (takeWhile (\<lambda>y. y \<noteq> c) xs)"
    using snoc by (simp add: ks_def)
  have "set (takeWhile (\<lambda>k. k \<noteq> c) ks') = set (takeWhile (\<lambda>y. y \<noteq> c) (xs @ [x]))"
  proof (cases "c \<in> set xs")
    case True
    then have "c \<in> set ks" using keys by simp
    then have "takeWhile (\<lambda>k. k \<noteq> c) ks' = takeWhile (\<lambda>k. k \<noteq> c) ks"
      unfolding step by (auto simp: takeWhile_append1)
    moreover have "takeWhile (\<lambda>y. y \<noteq> c) (xs @ [x]) = takeWhile (\<lambda>y. y \<noteq> c) xs"
      using True by (auto simp: takeWhile_append1)
    ultimately show ?thesis using IH by simp
  next
    case False
    have all_xs: "\<And>y. y \<in> set xs \<Longrightarrow> y \<noteq> c" using False by auto
    have all_ks: "\<And>y. y \<in> set ks \<Longrightarrow> y \<noteq> c" using False keys by auto
    have rhs: "takeWhile (\<lambda>y. y \<noteq> c) (xs @ [x]) = xs @ takeWhile (\<lambda>y. y \<noteq> c) [x]"
      using all_xs by (rule takeWhile_append2)
    have ks_all: "takeWhile (\<lambda>y. y \<noteq> c) ks = ks"
      using all_ks by (simp add: takeWhile_eq_all_conv)
    show ?thesis
    proof (cases "x \<in> set xs")
      case True
      then have "ks' = ks" using step by simp
      then have l: "set (takeWhile (\<lambda>k. k \<noteq> c) ks') = set xs"
        by (simp only: ks_all keys)
      have "x \<noteq> c" using True all_xs by auto
      then have "set (takeWhile (\<lambda>y. y \<noteq> c) (xs @ [x])) = insert x (set xs)"
        by (simp only: rhs) simp
      then show ?thesis using l True by auto
    next
      case notin: False
      then have "ks' = ks @ [x]" using step by simp
      moreover have "takeWhile (\<lambda>y. y \<noteq> c) (ks @ [x]) = ks @ takeWhile (\<lambda>y. y \<noteq> c) [x]"
        using all_ks by (rule takeWhile_append2)
      ultimately have "set (takeWhile (\<lambda>k. k \<noteq> c) ks') = set ks \<union> set (takeWhile (\<lambda>y. y \<noteq> c) [x])"
        by (simp only: set_append)
      moreover have "set (takeWhile (\<lambda>y. y \<noteq> c) (xs @ [x])) = set xs \<union> set (takeWhile (\<lambda>y. y \<noteq> c) [x])"
        by (simp only: rhs set_append)
      ultimately show ?thesis by (simp only: keys)
    qed
  qed
  then show ?case by (simp add: ks'_def)
qed

lemma max_by_count_cases:
  "max_by_count best kvs = r \<Longrightarrow>
     (r = best \<and> (\<forall>p \<in> set kvs. snd p \<le> snd best)) \<or>
     (r \<in> set kvs \<and> snd best < snd r \<and> (\<forall>p \<in> set kvs. snd p \<le> snd r) \<and>
      (\<forall>p \<in> set (takeWhile (\<lambda>p. p \<noteq> r) kvs). snd p < snd r))"
proof (induction kvs arbitrary: best)
  case Nil
  then show ?case by simp
next
  case (Cons p ps)
  show ?case
  proof (cases "snd best < snd p")
    case True
    with Cons.prems have "max_by_count p ps = r" by simp
    from Cons.IH [OF this] True show ?thesis by force
  next
    case False
    with Cons.prems have "max_by_count best ps = r" by simp
    from Cons.IH [OF this] False show ?thesis by force
  qed
qed

section \<open>The sampler\<close>

lemma float_of_int_bounded:
  assumes "\<bar>n\<bar> \<le> 2 ^ k" "k \<le> 1023"
  shows "\<exists>y. float_of_int n = Inr (Finite y) \<and> \<bar>y\<bar> \<le> pow2 (int k)"
proof -
  have "\<bar>of_int n :: rat\<bar> \<le> of_int (2 ^ k)"
    using assms(1) by (metis of_int_abs of_int_le_iff)
  then have "\<bar>of_int n :: rat\<bar> \<le> pow2 (int k)" by (simp add: pow2_nat)
  from round_double_bounded [OF this] assms(2) obtain y
    where "round_double (of_int n) = Finite y" "\<bar>y\<bar> \<le> pow2 (int k)" by auto
  then show ?thesis by (simp add: float_of_int_def)
qed

lemma sample_page_returns:
  assumes i: "0 \<le> i" "i < num_samples"
    and r: "\<bar>usable_range\<bar> \<le> 2 ^ 1001" and s: "\<bar>usable_start\<bar> \<le> 2 ^ 1001"
  shows "\<exists>page. sample_page usable_start usable_range num_samples i = Inr page"
proof -
  from i obtain q where q: "int_truediv (i + 1) (num_samples + 1) = Inr (Finite q)" "0 \<le> q" "q \<le> 1"
    using int_truediv_ratio [of "i + 1" "num_samples + 1"] by auto
  from float_of_int_bounded [OF r] obtain a
    where a: "float_of_int usable_range = Inr (Finite a)" "\<bar>a\<bar> \<le> pow2 (int 1001)" by auto
  from float_of_int_bounded [OF s] obtain b
    where b: "float_of_int usable_start = Inr (Finite b)" "\<bar>b\<bar> \<le> pow2 (int 1001)" by auto
  have "\<bar>a * q\<bar> \<le> \<bar>a\<bar> * 1"
    unfolding abs_mult using q by (intro mult_left_mono) simp_all
  then have "\<bar>a * q\<bar> \<le> pow2 (int 1001)" using a(2) by simp
  from round_double_bounded [OF this] obtain m
    where m: "round_double (a * q) = Finite m" "\<bar>m\<bar> \<le> pow2 (int 1001)" by auto
  have "pow2 (int 1001 + 1) = pow2 (int 1001) * 2"
    unfolding pow2_add by (simp add: pow2_def)
  then have "\<bar>b + m\<bar> \<le> pow2 (int 1001 + 1)" using b(2) m(2) by simp
  from round_double_bounded [OF this] obtain t
    where t: "round_double (b + m) = Finite t" by auto
  show ?thesis
    by (simp add: sample_page_def q a b m t)
qed

lemma positions_loop_returns:
  assumes "\<And>i. i \<in> set is \<Longrightarrow> \<exists>page. sample_page usable_start usable_range num_samples i = Inr page"
  shows "\<exists>ps. positions_loop usable_start usable_range num_samples is positions = Inr (positions @ ps)
           \<and> length ps = length is
           \<and> (\<forall>j < length is. sample_page usable_start usable_range num_samples (is ! j) = Inr (ps ! j))"
  using assms
proof (induction "is" arbitrary: positions)
  case Nil
  then show ?case by simp
next
  case (Cons i "is")
  from Cons.prems obtain page
    where page: "sample_page usable_start usable_range num_samples i = Inr page" by auto
  from Cons.IH [of "positions @ [page]"] Cons.prems obtain ps
    where ps: "positions_loop usable_start usable_range num_samples is (positions @ [page])
                 = Inr ((positions @ [page]) @ ps)"
      "length ps = length is"
      "\<forall>j < length is. sample_page usable_start usable_range num_samples (is ! j) = Inr (ps ! j)"
    by auto
  have "\<forall>j < length (i # is).
          sample_page usable_start usable_range num_samples ((i # is) ! j) = Inr ((page # ps) ! j)"
    using page ps(3) by (auto simp: nth_Cons split: nat.splits)
  then show ?case
    using page ps(1,2) by (intro exI [of _ "page # ps"]) simp
qed


lemma sample_page_default_exact:
  assumes r: "0 < usable_range" "usable_range < 2 ^ 50"
    and s: "0 \<le> usable_start" "usable_start < 2 ^ 50"
    and j: "j \<in> {1, 2, 3}"
  shows "sample_page usable_start usable_range 3 (j - 1)
           = Inr (usable_start + (j * usable_range) div 4)"
proof -
  from j consider "j = 1" | "j = 2" | "j = 3" by auto
  then have frac: "int_truediv (j - 1 + 1) (3 + 1) = Inr (Finite (of_int j / 4))"
    by cases (simp_all add: float_eval)
  have ur: "float_of_int usable_range = Inr (Finite (of_int usable_range))"
    using r by (intro float_of_int_exact) simp_all
  have us: "float_of_int usable_start = Inr (Finite (of_int usable_start))"
    using s by (intro float_of_int_exact) simp_all
  have j3: "0 < j" "j \<le> 3" using j by auto
  have p2: "pow2 (50 - 52) = 1 / 4" by (simp add: pow2_def)
  have j_pos: "0 < j * usable_range" using j3 r by simp
  moreover have j_le: "j * usable_range \<le> 3 * usable_range" using j3 r by simp
  have "3 * usable_range < 2 ^ 53" using r by simp
  with j_le have "j * usable_range < 2 ^ 53" by (rule le_less_trans)
  ultimately have "round_double (of_int (j * usable_range) * pow2 (50 - 52))
                 = Finite (of_int (j * usable_range) * pow2 (50 - 52))"
    by (intro round_double_exact) simp_all
  moreover have "of_int (j * usable_range) * (1 / 4) = of_int usable_range * (of_int j / 4 :: rat)"
    by simp
  ultimately have "round_double (of_int usable_range * (of_int j / 4))
                 = Finite (of_int usable_range * (of_int j / 4))"
    unfolding p2 by (simp only:)
  then have prod: "float_mul (Finite (of_int usable_range)) (Finite (of_int j / 4))
                 = Finite (of_int usable_range * (of_int j / 4))"
    by (simp only: float_mul.simps)
  have "0 < 4 * usable_start + j * usable_range" using j_pos s by linarith
  moreover have "4 * usable_start + 3 * usable_range < 2 ^ 53" using r s by simp
  with j_le have "4 * usable_start + j * usable_range < 2 ^ 53" by linarith
  ultimately have "round_double (of_int (4 * usable_start + j * usable_range) * pow2 (50 - 52))
                 = Finite (of_int (4 * usable_start + j * usable_range) * pow2 (50 - 52))"
    by (intro round_double_exact) simp_all
  moreover have "of_int (4 * usable_start + j * usable_range) * (1 / 4)
                 = of_int usable_start + of_int usable_range * (of_int j / 4 :: rat)"
    by (simp add: field_simps)
  ultimately have "round_double (of_int usable_start + of_int usable_range * (of_int j / 4))
                 = Finite (of_int usable_start + of_int usable_range * (of_int j / 4))"
    unfolding p2 by (simp only:)
  moreover have "of_int usable_start + of_int usable_range * (of_int j / 4 :: rat)
                 = of_int (4 * usable_start + j * usable_range) / of_int 4"
    by (simp add: field_simps)
  ultimately have sum: "float_add (Finite (of_int usable_start))
                   (Finite (of_int usable_range * (of_int j / 4)))
                 = Finite (of_int (4 * usable_start + j * usable_range) / of_int 4)"
    by (simp only: float_add.simps)
  have "0 \<le> 4 * usable_start + j * usable_range" using j_pos s by linarith
  then have "(0 :: rat) \<le> of_int (4 * usable_start + j * usable_range)" by (simp only: of_int_0_le_iff)
  then have nonneg: "(0 :: rat) \<le> of_int (4 * usable_start + j * usable_range) / of_int 4"
    by simp
  have "\<lfloor>of_int (4 * usable_start + j * usable_range) / (of_int 4 :: rat)\<rfloor>
          = (4 * usable_start + j * usable_range) div 4"
    by (rule floor_divide_of_int_eq)
  also have "\<dots> = usable_start + (j * usable_range) div 4" by simp
  finally have "int_of_float (Finite (of_int (4 * usable_start + j * usable_range) / of_int 4))
          = Inr (usable_start + (j * usable_range) div 4)"
    using nonneg by simp
  then show ?thesis
    unfolding sample_page_def frac ur us by (simp only: sum.case prod sum)
qed

lemma select_sample_pages_default_exact:
  assumes "0 \<le> skip_first" "skip_first + 3 < total_pages" "total_pages < 2 ^ 50"
  shows "select_sample_pages total_pages 3 skip_first
           = Inr [skip_first + 1 + (1 * (total_pages - (skip_first + 1))) div 4,
                  skip_first + 1 + (2 * (total_pages - (skip_first + 1))) div 4,
                  skip_first + 1 + (3 * (total_pages - (skip_first + 1))) div 4]"
proof -
  define us where "us = skip_first + 1"
  define ur where "ur = total_pages - us"
  have r: "0 < ur" "ur < 2 ^ 50" and s: "0 \<le> us" "us < 2 ^ 50"
    using assms by (simp_all add: us_def ur_def)
  have p1: "sample_page us ur 3 0 = Inr (us + (1 * ur) div 4)"
    using sample_page_default_exact [OF r s, of 1] by simp
  have p2: "sample_page us ur 3 1 = Inr (us + (2 * ur) div 4)"
    using sample_page_default_exact [OF r s, of 2] by simp
  have p3: "sample_page us ur 3 2 = Inr (us + (3 * ur) div 4)"
    using sample_page_default_exact [OF r s, of 3] by simp
  have loop: "positions_loop us ur 3 [0, 1, 2] []
        = Inr [us + (1 * ur) div 4, us + (2 * ur) div 4, us + (3 * ur) div 4]"
    by (simp only: positions_loop.simps p1 p2 p3 sum.case append.simps)
  have range: "[0 .. 3 - 1 :: int] = [0, 1, 2]" by (simp add: upto.simps)
  have "\<not> total_pages \<le> skip_first" "\<not> ur < 3" using assms by (simp_all add: us_def ur_def)
  then have "select_sample_pages total_pages 3 skip_first = positions_loop us ur 3 [0 .. 3 - 1] []"
    unfolding select_sample_pages_def Let_def us_def [symmetric] ur_def [symmetric] by (simp only: if_False)
  then have "select_sample_pages total_pages 3 skip_first
        = Inr [us + (1 * ur) div 4, us + (2 * ur) div 4, us + (3 * ur) div 4]"
    by (simp only: range loop)
  then show ?thesis unfolding ur_def us_def .
qed

text \<open>
  The pages are computed in double precision, and the result can differ from the exact
  quotient: for 4906 pages, 48 samples and 5 skipped pages the first fraction is
  \<open>1 / 49\<close>, the exact position is \<open>6 + 4900 / 49 = 106\<close>, and the code
  computes 105.
\<close>

lemma sample_page_rounding_example:
  "sample_page 6 4900 48 0 = Inr 105 \<and> (6 :: int) + (4900 * 1) div 49 = 106"
  by (simp add: sample_page_def float_eval)

text \<open>
  The conversion of an integer that is too large for a \<open>float\<close> raises: a document
  of \<open>2 ^ 1025\<close> pages makes the sampler fail with \<open>OverflowError\<close>.
\<close>

lemma select_sample_pages_overflow_example:
  "select_sample_pages (2 ^ 1025) 1 0 = Inl OverflowError"
  by (simp add: select_sample_pages_def sample_page_def float_eval upto.simps)

text \<open>
  Claim C3, as amended. For \<open>skip_first < total_pages\<close> the usable pages are
  \<open>skip_first + 1 .. total_pages\<close> and \<open>usable_range\<close> is their span
  \<open>total_pages - (skip_first + 1)\<close>, one less than their number. When the span is
  less than \<open>num_samples\<close>, that is when there are at most \<open>num_samples\<close>
  usable pages, \<open>select_sample_pages\<close> returns every usable page once. Otherwise, for
  page counts below \<open>2 ^ 1000\<close> (far beyond them the conversion to \<open>float\<close>
  raises \<open>OverflowError\<close>), it returns \<open>num_samples\<close> pages (none for a negative
  \<open>num_samples\<close>), the \<open>i\<close>-th being
  \<open>int(usable_start + usable_range * ((i + 1) / (num_samples + 1)))\<close> as computed in
  double precision by \<open>sample_page\<close>. For the default of 3 samples, no negative
  \<open>skip_first\<close> and fewer than \<open>2 ^ 50\<close> pages this is exactly
  \<open>usable_start + (j * usable_range) // 4\<close> for \<open>j = 1, 2, 3\<close>. For 100 pages,
  3 samples and 5 skipped pages the result is \<open>[29, 53, 76]\<close>.
\<close>

theorem select_sample_pages_usable_range:
  assumes "skip_first < total_pages"
  shows "(total_pages - (skip_first + 1) < num_samples \<longrightarrow>
           select_sample_pages total_pages num_samples skip_first = Inr [skip_first + 1 .. total_pages]
           \<and> distinct [skip_first + 1 .. total_pages])
       \<and> (num_samples \<le> total_pages - (skip_first + 1) \<and> total_pages \<le> 2 ^ 1000
            \<and> - (2 ^ 1000) \<le> skip_first \<longrightarrow>
           (\<exists>ps. select_sample_pages total_pages num_samples skip_first = Inr ps
              \<and> length ps = nat num_samples
              \<and> (\<forall>i < nat num_samples.
                    sample_page (skip_first + 1) (total_pages - (skip_first + 1)) num_samples (int i)
                      = Inr (ps ! i))))
       \<and> (num_samples = 3 \<and> 3 \<le> total_pages - (skip_first + 1) \<and> 0 \<le> skip_first
            \<and> total_pages < 2 ^ 50 \<longrightarrow>
           select_sample_pages total_pages num_samples skip_first
             = Inr [skip_first + 1 + (1 * (total_pages - (skip_first + 1))) div 4,
                    skip_first + 1 + (2 * (total_pages - (skip_first + 1))) div 4,
                    skip_first + 1 + (3 * (total_pages - (skip_first + 1))) div 4])
       \<and> select_sample_pages 100 3 5 = Inr [29, 53, 76]"
proof (intro conjI impI)
  assume "total_pages - (skip_first + 1) < num_samples"
  with assms show "select_sample_pages total_pages num_samples skip_first = Inr [skip_first + 1 .. total_pages]"
    by (simp add: select_sample_pages_def)
next
  show "distinct [skip_first + 1 .. total_pages]" by simp
next
  assume b: "num_samples \<le> total_pages - (skip_first + 1) \<and> total_pages \<le> 2 ^ 1000
            \<and> - (2 ^ 1000) \<le> skip_first"
  let ?us = "skip_first + 1" and ?ur = "total_pages - (skip_first + 1)"
  define B :: int where "B = 2 ^ 1000"
  have B2: "(2 :: int) ^ 1001 = 2 * B" unfolding B_def by simp
  have B: "total_pages \<le> B" "- B \<le> skip_first" using b unfolding B_def by simp_all
  have r: "\<bar>?ur\<bar> \<le> 2 ^ 1001" and s: "\<bar>?us\<bar> \<le> 2 ^ 1001"
    unfolding B2 using B assms by linarith+
  have "\<And>i. i \<in> set [0 .. num_samples - 1] \<Longrightarrow> \<exists>page. sample_page ?us ?ur num_samples i = Inr page"
    using sample_page_returns [OF _ _ r s] by simp
  from positions_loop_returns [OF this, of "[0 .. num_samples - 1]" "[]"] obtain ps
    where ps: "positions_loop ?us ?ur num_samples [0 .. num_samples - 1] [] = Inr ps"
      "length ps = length [0 .. num_samples - 1]"
      "\<forall>j < length [0 .. num_samples - 1].
         sample_page ?us ?ur num_samples ([0 .. num_samples - 1] ! j) = Inr (ps ! j)"
    by auto
  have len: "length [0 .. num_samples - 1] = nat num_samples" by simp
  have "\<forall>i < nat num_samples. sample_page ?us ?ur num_samples (int i) = Inr (ps ! i)"
  proof (intro allI impI)
    fix i assume i: "i < nat num_samples"
    then have "[0 .. num_samples - 1] ! i = 0 + int i" by (intro nth_upto) simp
    with ps(3) i len show "sample_page ?us ?ur num_samples (int i) = Inr (ps ! i)" by simp
  qed
  moreover have "select_sample_pages total_pages num_samples skip_first = Inr ps"
    using assms b ps(1) by (simp add: select_sample_pages_def)
  ultimately show "\<exists>ps. select_sample_pages total_pages num_samples skip_first = Inr ps
              \<and> length ps = nat num_samples
              \<and> (\<forall>i < nat num_samples.
                    sample_page (skip_first + 1) (total_pages - (skip_first + 1)) num_samples (int i)
                      = Inr (ps ! i))"
    using ps(2) len by auto
next
  assume d: "num_samples = 3 \<and> 3 \<le> total_pages - (skip_first + 1) \<and> 0 \<le> skip_first
            \<and> total_pages < 2 ^ 50"
  then have "skip_first + 3 < total_pages" by simp
  with d show "select_sample_pages total_pages num_samples skip_first
             = Inr [skip_first + 1 + (1 * (total_pages - (skip_first + 1))) div 4,
                    skip_first + 1 + (2 * (total_pages - (skip_first + 1))) div 4,
                    skip_first + 1 + (3 * (total_pages - (skip_first + 1))) div 4]"
    using select_sample_pages_default_exact [of skip_first total_pages] by (simp only:)
next
  show "select_sample_pages 100 3 5 = Inr [29, 53, 76]"
    by (simp add: select_sample_pages_def sample_page_def float_eval upto.simps)
qed

theorem select_sample_pages_usable_range_witness:
  "(5 :: int) < 8 \<and> select_sample_pages 8 3 5 = Inr [6, 7, 8]
   \<and> (5 :: int) < 100 \<and> (3 :: int) \<le> 100 - (5 + 1) \<and> (100 :: int) < 2 ^ 50
   \<and> select_sample_pages 100 3 5 = Inr [6 + 94 div 4, 6 + 188 div 4, 6 + 282 div 4]
   \<and> sample_page (5 + 1) (100 - (5 + 1)) 3 0 = Inr 29"
  using select_sample_pages_usable_range [of 5 8 3] select_sample_pages_usable_range [of 5 100 3]
  by (simp add: upto.simps sample_page_def float_eval)

text \<open>
  Claim C3 as stated fails where the usable range holds exactly \<open>num_samples\<close> pages.
  With 8 pages, 3 samples and 5 skipped pages the usable pages are 6, 7 and 8: not fewer
  than 3, so the claim asks for the spaced pages, the third being
  \<open>int(6 + 2 * (3 / 4)) = 7\<close>; the code returns all three usable pages, the third
  being 8.
\<close>

theorem select_sample_pages_boundary_counterexample:
  "select_sample_pages 8 3 5 = Inr [6, 7, 8]
   \<and> \<not> length [5 + 1 .. 8 :: int] < 3
   \<and> sample_page (5 + 1) (8 - (5 + 1)) 3 2 = Inr 7"
  by (simp add: select_sample_pages_def sample_page_def float_eval upto.simps)




text \<open>
  Claim C10. For a document of one page and any \<open>skip_first \<ge> 1\<close> (the default is
  5), \<open>select_sample_pages\<close> returns the single page index 0, which is not among the
  1-based page indices \<open>1 .. 1\<close> of the document.
\<close>

theorem select_sample_pages_single_page:
  assumes "1 \<le> skip_first"
  shows "select_sample_pages 1 num_samples skip_first = Inr [0] \<and> (0 :: int) \<notin> {1 .. 1}"
  using assms by (simp add: select_sample_pages_def)

theorem select_sample_pages_single_page_witness:
  "(1 :: int) \<le> 5 \<and> select_sample_pages 1 3 5 = Inr [0] \<and> (0 :: int) \<notin> {1 .. 1}"
  using select_sample_pages_single_page [of 5 3] by simp

section \<open>The consensus engine\<close>

lemma max_by_count_first:
  assumes "max_by_count kv kvs = r"
  shows "r \<in> set (kv # kvs) \<and> (\<forall>p \<in> set (kv # kvs). snd p \<le> snd r)
         \<and> (\<forall>p \<in> set (takeWhile (\<lambda>p. p \<noteq> r) (kv # kvs)). snd p < snd r)"
  using max_by_count_cases [OF assms] by auto

lemma count_list_offsets:
  assumes "\<And>s. s \<in> set vs \<Longrightarrow> offset s \<noteq> None"
  shows "count_list (map (the \<circ> offset) vs) c = length (filter (\<lambda>s. offset s = Some c) vs)"
  using assms by (induction vs) auto

lemma consensus_pair:
  assumes "offs \<noteq> []"
  shows "\<exists>c. most_common1 (Counter offs) = [(c, count_list offs c)] \<and> c \<in> set offs
           \<and> (\<forall>y. count_list offs y \<le> count_list offs c)
           \<and> (\<forall>y \<in> set (takeWhile (\<lambda>y. y \<noteq> c) offs). count_list offs y < count_list offs c)"
proof -
  define C where "C = Counter offs"
  have keys: "fst ` set C = set offs" and dist: "distinct (map fst C)"
    and lookup: "\<And>k. map_of C k = (if k \<in> set offs then Some (count_list offs k) else None)"
    unfolding C_def by (rule Counter_key_set, rule Counter_distinct, rule Counter_lookup)
  have entry: "\<And>k n. (k, n) \<in> set C \<Longrightarrow> k \<in> set offs \<and> n = count_list offs k"
  proof -
    fix k n assume "(k, n) \<in> set C"
    then have "map_of C k = Some n" using dist by simp
    then show "k \<in> set offs \<and> n = count_list offs k"
      unfolding lookup by (simp split: if_splits)
  qed
  from assms keys have "C \<noteq> []" by auto
  then obtain kv kvs where C: "C = kv # kvs" by (cases C) auto
  define r where "r = max_by_count kv kvs"
  obtain c n where r: "r = (c, n)" by (cases r)
  from max_by_count_first [of kv kvs r]
  have mem: "r \<in> set C" and ge: "\<And>p. p \<in> set C \<Longrightarrow> snd p \<le> snd r"
    and before: "\<And>p. p \<in> set (takeWhile (\<lambda>p. p \<noteq> r) C) \<Longrightarrow> snd p < snd r"
    unfolding C r_def by auto
  from entry mem have c: "c \<in> set offs" and n: "n = count_list offs c"
    unfolding r by auto
  have mc: "most_common1 (Counter offs) = [(c, count_list offs c)]"
    using C r n unfolding C_def [symmetric] most_common1_def r_def by simp
  have all: "\<And>y. count_list offs y \<le> count_list offs c"
  proof -
    fix y
    show "count_list offs y \<le> count_list offs c"
    proof (cases "y \<in> set offs")
      case True
      then have "map_of C y = Some (count_list offs y)" by (simp add: lookup)
      then have "(y, count_list offs y) \<in> set C" by (rule map_of_SomeD)
      from ge [OF this] show ?thesis unfolding r n by simp
    next
      case False
      then show ?thesis by (simp add: count_list_0_iff)
    qed
  qed
  have same: "takeWhile (\<lambda>p. fst p \<noteq> c) C = takeWhile (\<lambda>p. p \<noteq> r) C"
  proof (rule takeWhile_cong [OF refl])
    fix p assume p: "p \<in> set C"
    obtain k m where km: "p = (k, m)" by (cases p)
    show "(fst p \<noteq> c) = (p \<noteq> r)"
    proof (cases "k = c")
      case True
      with p km entry [of k m] have "m = n" using n by simp
      with True km r show ?thesis by simp
    next
      case False
      with km r show ?thesis by auto
    qed
  qed
  have first: "\<forall>y \<in> set (takeWhile (\<lambda>y. y \<noteq> c) offs). count_list offs y < count_list offs c"
  proof
    fix y assume "y \<in> set (takeWhile (\<lambda>y. y \<noteq> c) offs)"
    then have "y \<in> set (takeWhile (\<lambda>k. k \<noteq> c) (map fst C))"
      unfolding C_def Counter_first_occurrence .
    then have "y \<in> fst ` set (takeWhile (\<lambda>p. fst p \<noteq> c) C)"
      by (simp add: takeWhile_map comp_def)
    then obtain p where p: "p \<in> set (takeWhile (\<lambda>p. p \<noteq> r) C)" and y: "y = fst p"
      unfolding same by auto
    from p have "p \<in> set C" by (rule set_takeWhileD [THEN conjunct1])
    with entry [of "fst p" "snd p"] have "snd p = count_list offs y" using y by simp
    with before [OF p] show "count_list offs y < count_list offs c" unfolding r n by simp
  qed
  from mc c all first show ?thesis by blast
qed

lemma valid_samples_offset: "s \<in> set (valid_samples samples) \<Longrightarrow> offset s \<noteq> None"
  by (simp add: valid_samples_def)

lemma OffsetSample_valid: "(offset (OffsetSample p l) = None) = (l = None)"
  by (cases l) (simp_all add: OffsetSample_def)

lemma calculate_none:
  assumes "valid_samples samples = []"
  shows "calculate_offset_from_samples samples =
     Inr \<lparr>res_offset = None,
          res_confidence = ''NONE'',
          res_samples_processed = length samples,
          res_samples_agreed = 0,
          res_samples_valid = None,
          res_agreement_ratio = None,
          res_all_offsets = [],
          res_offset_distribution = None,
          res_evidence =
            map (\<lambda>s. \<lparr>ev_pdf_page = pdf_page s,
                       ev_detected_label = detected_label s,
                       ev_offset = offset s,
                       ev_agrees_with_consensus = None\<rparr>) samples,
          res_message = Some (''No labeled page numbers detected. '' @
            ''Document may use PDF page numbers directly (offset = 0).''),
          res_warning = None\<rparr>"
  using assms by (simp add: calculate_offset_from_samples_def)

lemma calculate_valid:
  assumes "valid_samples samples \<noteq> []"
  shows "\<exists>c q w.
     c \<in> set (map (the \<circ> offset) (valid_samples samples))
     \<and> (\<forall>y. count_list (map (the \<circ> offset) (valid_samples samples)) y
              \<le> count_list (map (the \<circ> offset) (valid_samples samples)) c)
     \<and> (\<forall>y \<in> set (takeWhile (\<lambda>y. y \<noteq> c) (map (the \<circ> offset) (valid_samples samples))).
            count_list (map (the \<circ> offset) (valid_samples samples)) y
              < count_list (map (the \<circ> offset) (valid_samples samples)) c)
     \<and> int_truediv (int (length (filter (\<lambda>s. offset s = Some c) (valid_samples samples))))
           (int (length (valid_samples samples))) = Inr (Finite q)
     \<and> 0 \<le> q \<and> q \<le> 1
     \<and> calculate_offset_from_samples samples =
         Inr \<lparr>res_offset = Some c,
              res_confidence =
                (if q = 1 then ''HIGH''
                 else if float_ge (Finite q) literal_0_66 then ''MEDIUM'' else ''LOW''),
              res_samples_processed = length samples,
              res_samples_agreed = length (filter (\<lambda>s. offset s = Some c) (valid_samples samples)),
              res_samples_valid = Some (length (valid_samples samples)),
              res_agreement_ratio = Some (Finite q),
              res_all_offsets = map (the \<circ> offset) (valid_samples samples),
              res_offset_distribution = Some (Counter (map (the \<circ> offset) (valid_samples samples))),
              res_evidence =
                map (\<lambda>s. \<lparr>ev_pdf_page = pdf_page s,
                           ev_detected_label = detected_label s,
                           ev_offset = offset s,
                           ev_agrees_with_consensus = Some (offset s = Some c)\<rparr>) samples,
              res_message = None,
              res_warning = w\<rparr>"
proof -
  define vs where "vs = valid_samples samples"
  define offs where "offs = map (the \<circ> offset) vs"
  have "offs \<noteq> []" using assms by (simp add: offs_def vs_def)
  from consensus_pair [OF this] obtain c
    where mc: "most_common1 (Counter offs) = [(c, count_list offs c)]" and c: "c \<in> set offs"
      and all: "\<forall>y. count_list offs y \<le> count_list offs c"
      and first: "\<forall>y \<in> set (takeWhile (\<lambda>y. y \<noteq> c) offs). count_list offs y < count_list offs c"
    by blast
  have cnt: "count_list offs c = length (filter (\<lambda>s. offset s = Some c) vs)"
    unfolding offs_def vs_def by (rule count_list_offsets) (rule valid_samples_offset)
  have "count_list offs c \<noteq> 0" using c by (simp add: count_list_0_iff)
  then have "0 < count_list offs c" by simp
  moreover have "count_list offs c \<le> length vs"
    unfolding cnt by (rule length_filter_le)
  ultimately obtain q
    where q: "int_truediv (int (count_list offs c)) (int (length vs)) = Inr (Finite q)"
      "0 \<le> q" "q \<le> 1"
    using int_truediv_ratio [of "int (count_list offs c)" "int (length vs)"] by auto
  have ne: "vs \<noteq> []" using assms by (simp add: vs_def)
  show ?thesis
    apply (rule exI [of _ c], rule exI [of _ q])
    using c all first q ne mc
    unfolding calculate_offset_from_samples_def vs_def [symmetric] Let_def offs_def [symmetric] cnt
    by simp
qed

lemmas calculate_eval =
  calculate_offset_from_samples_def valid_samples_def OffsetSample_def Counter_def
  most_common1_def literal_0_66_def float_eval str_nat.simps

text \<open>
  Claim C1. With \<open>agreement_ratio\<close> the quotient, as a \<open>float\<close>, of the number of
  valid samples whose offset is the consensus offset by the number of valid samples: the
  confidence is \<open>HIGH\<close> exactly when \<open>agreement_ratio == 1.0\<close>, \<open>MEDIUM\<close>
  exactly when \<open>0.66 <= agreement_ratio < 1.0\<close>, and \<open>LOW\<close> exactly when neither
  holds; and it is \<open>NONE\<close> exactly when no sample is valid. For up to \<open>2 ^ 46\<close>
  valid samples the float comparisons decide the exact fraction: \<open>HIGH\<close> exactly when
  all valid samples agree, \<open>MEDIUM\<close> exactly when at least 66 in 100 but not all of
  them agree, \<open>LOW\<close> exactly when fewer than 66 in 100 agree. A sample is valid when
  its offset is present, which for a sample made by \<open>OffsetSample\<close> is when its
  detected label is present (\<open>OffsetSample_valid\<close>). The engine returns a result for
  every sample sequence.
\<close>

theorem confidence_tiers:
  "\<exists>r. calculate_offset_from_samples samples = Inr r
     \<and> (res_confidence r = ''NONE'' \<longleftrightarrow> valid_samples samples = [])
     \<and> (valid_samples samples \<noteq> [] \<longrightarrow>
          (\<exists>c agreement_ratio.
             res_offset r = Some c
             \<and> int_truediv (int (length (filter (\<lambda>s. offset s = Some c) (valid_samples samples))))
                   (int (length (valid_samples samples))) = Inr agreement_ratio
             \<and> (res_confidence r = ''HIGH'' \<longleftrightarrow> float_eq agreement_ratio (Finite 1))
             \<and> (res_confidence r = ''MEDIUM'' \<longleftrightarrow>
                  float_ge agreement_ratio literal_0_66 \<and> float_lt agreement_ratio (Finite 1))
             \<and> (res_confidence r = ''LOW'' \<longleftrightarrow>
                  \<not> float_eq agreement_ratio (Finite 1)
                  \<and> \<not> (float_ge agreement_ratio literal_0_66
                        \<and> float_lt agreement_ratio (Finite 1)))
             \<and> (length (valid_samples samples) \<le> 2 ^ 46 \<longrightarrow>
                  (res_confidence r = ''HIGH'' \<longleftrightarrow>
                     length (filter (\<lambda>s. offset s = Some c) (valid_samples samples))
                       = length (valid_samples samples))
                  \<and> (res_confidence r = ''MEDIUM'' \<longleftrightarrow>
                       66 * length (valid_samples samples)
                         \<le> 100 * length (filter (\<lambda>s. offset s = Some c) (valid_samples samples))
                       \<and> length (filter (\<lambda>s. offset s = Some c) (valid_samples samples))
                           < length (valid_samples samples))
                  \<and> (res_confidence r = ''LOW'' \<longleftrightarrow>
                       100 * length (filter (\<lambda>s. offset s = Some c) (valid_samples samples))
                         < 66 * length (valid_samples samples)))))"
proof (cases "valid_samples samples = []")
  case True
  then show ?thesis by (simp add: calculate_none)
next
  case False
  define total where "total = length (valid_samples samples)"
  from calculate_valid [OF False] obtain c q w r
    where c: "c \<in> set (map (the \<circ> offset) (valid_samples samples))"
      and q: "int_truediv (int (length (filter (\<lambda>s. offset s = Some c) (valid_samples samples))))
                (int total) = Inr (Finite q)" "q \<le> 1"
      and r: "calculate_offset_from_samples samples = Inr r"
        "res_offset r = Some c"
        "res_confidence r =
           (if q = 1 then ''HIGH''
            else if float_ge (Finite q) literal_0_66 then ''MEDIUM'' else ''LOW'')"
    unfolding total_def by fastforce
  define agreed where "agreed = length (filter (\<lambda>s. offset s = Some c) (valid_samples samples))"
  have "count_list (map (the \<circ> offset) (valid_samples samples)) c \<noteq> 0"
    using c by (simp only: count_list_0_iff not_not)
  moreover have "count_list (map (the \<circ> offset) (valid_samples samples)) c = agreed"
    unfolding agreed_def by (rule count_list_offsets) (rule valid_samples_offset)
  ultimately have "agreed \<noteq> 0" by simp
  then have agreed: "0 < int agreed" "int agreed \<le> int total"
    by (simp_all add: agreed_def total_def)
  have lt: "float_lt (Finite q) (Finite 1) \<longleftrightarrow> q \<noteq> 1"
    using q(2) by (simp add: float_lt_def)
  have conf: "res_confidence r = ''HIGH'' \<longleftrightarrow> q = 1"
    "res_confidence r = ''MEDIUM'' \<longleftrightarrow> q \<noteq> 1 \<and> float_ge (Finite q) literal_0_66"
    "res_confidence r = ''LOW'' \<longleftrightarrow> q \<noteq> 1 \<and> \<not> float_ge (Finite q) literal_0_66"
    "res_confidence r \<noteq> ''NONE''"
    unfolding r(3) by simp_all
  have exact: "(res_confidence r = ''HIGH'' \<longleftrightarrow> agreed = total)
      \<and> (res_confidence r = ''MEDIUM'' \<longleftrightarrow> 66 * total \<le> 100 * agreed \<and> agreed < total)
      \<and> (res_confidence r = ''LOW'' \<longleftrightarrow> 100 * agreed < 66 * total)"
    if small: "total \<le> 2 ^ 46"
  proof -
    have t46: "int total \<le> 2 ^ 46" using small by (simp add: of_nat_le_numeral_power_cancel_iff)
    then have t53: "int total \<le> 2 ^ 53" by simp
    have one: "q = 1 \<longleftrightarrow> agreed = total"
      using int_truediv_one_iff [OF agreed t53 q(1) [folded agreed_def]] by simp
    have ge: "float_ge (Finite q) literal_0_66 \<longleftrightarrow> 66 * total \<le> 100 * agreed"
      using int_truediv_ge_066_iff [OF agreed t46 q(1) [folded agreed_def]] by linarith
    have le: "agreed \<le> total" using agreed(2) by simp
    show ?thesis unfolding conf one ge using le by auto
  qed
  have high: "res_confidence r = ''HIGH'' \<longleftrightarrow> float_eq (Finite q) (Finite 1)"
    using conf(1) by simp
  have medium: "res_confidence r = ''MEDIUM'' \<longleftrightarrow>
      float_ge (Finite q) literal_0_66 \<and> float_lt (Finite q) (Finite 1)"
    using conf(2) lt by auto
  have low: "res_confidence r = ''LOW'' \<longleftrightarrow>
      \<not> float_eq (Finite q) (Finite 1)
      \<and> \<not> (float_ge (Finite q) literal_0_66 \<and> float_lt (Finite q) (Finite 1))"
    using conf(3) lt by auto
  have small: "length (valid_samples samples) \<le> 2 ^ 46 \<longrightarrow>
      (res_confidence r = ''HIGH'' \<longleftrightarrow>
         length (filter (\<lambda>s. offset s = Some c) (valid_samples samples))
           = length (valid_samples samples))
      \<and> (res_confidence r = ''MEDIUM'' \<longleftrightarrow>
           66 * length (valid_samples samples)
             \<le> 100 * length (filter (\<lambda>s. offset s = Some c) (valid_samples samples))
           \<and> length (filter (\<lambda>s. offset s = Some c) (valid_samples samples))
               < length (valid_samples samples))
      \<and> (res_confidence r = ''LOW'' \<longleftrightarrow>
           100 * length (filter (\<lambda>s. offset s = Some c) (valid_samples samples))
             < 66 * length (valid_samples samples))"
    using exact unfolding agreed_def total_def by (rule impI)
  have ratio: "int_truediv (int (length (filter (\<lambda>s. offset s = Some c) (valid_samples samples))))
                (int (length (valid_samples samples))) = Inr (Finite q)"
    using q(1) unfolding total_def .
  from r(2) ratio high medium low small
  have "\<exists>c agreement_ratio.
             res_offset r = Some c
             \<and> int_truediv (int (length (filter (\<lambda>s. offset s = Some c) (valid_samples samples))))
                   (int (length (valid_samples samples))) = Inr agreement_ratio
             \<and> (res_confidence r = ''HIGH'' \<longleftrightarrow> float_eq agreement_ratio (Finite 1))
             \<and> (res_confidence r = ''MEDIUM'' \<longleftrightarrow>
                  float_ge agreement_ratio literal_0_66 \<and> float_lt agreement_ratio (Finite 1))
             \<and> (res_confidence r = ''LOW'' \<longleftrightarrow>
                  \<not> float_eq agreement_ratio (Finite 1)
                  \<and> \<not> (float_ge agreement_ratio literal_0_66
                        \<and> float_lt agreement_ratio (Finite 1)))
             \<and> (length (valid_samples samples) \<le> 2 ^ 46 \<longrightarrow>
                  (res_confidence r = ''HIGH'' \<longleftrightarrow>
                     length (filter (\<lambda>s. offset s = Some c) (valid_samples samples))
                       = length (valid_samples samples))
                  \<and> (res_confidence r = ''MEDIUM'' \<longleftrightarrow>
                       66 * length (valid_samples samples)
                         \<le> 100 * length (filter (\<lambda>s. offset s = Some c) (valid_samples samples))
                       \<and> length (filter (\<lambda>s. offset s = Some c) (valid_samples samples))
                           < length (valid_samples samples))
                  \<and> (res_confidence r = ''LOW'' \<longleftrightarrow>
                       100 * length (filter (\<lambda>s. offset s = Some c) (valid_samples samples))
                         < 66 * length (valid_samples samples)))"
    by (intro exI [of _ c] exI [of _ "Finite q"] conjI)
  with r(1) conf(4) False show ?thesis
    by (intro exI [of _ r]) (simp only: simp_thms)
qed

theorem confidence_tiers_witness:
  "valid_samples [OffsetSample 10 (Some 8), OffsetSample 20 (Some 17), OffsetSample 30 (Some 27)] \<noteq> []
   \<and> map_sum id res_confidence
        (calculate_offset_from_samples
           [OffsetSample 10 (Some 8), OffsetSample 20 (Some 17), OffsetSample 30 (Some 27)])
       = Inr ''MEDIUM''
   \<and> int_truediv 2 3 = Inr (Finite (6004799503160661 / 9007199254740992))
   \<and> float_ge (Finite (6004799503160661 / 9007199254740992)) literal_0_66"
  using confidence_tiers
          [of "[OffsetSample 10 (Some 8), OffsetSample 20 (Some 17), OffsetSample 30 (Some 27)]"]
  by (simp add: calculate_eval)

text \<open>
  Claim C2. When at least one sample is valid, the consensus offset is a mode of the
  offsets of the valid samples: it occurs among them, and no value occurs more often.
  Among several modes it is the one that occurs first: every value that occurs before the
  first occurrence of the consensus offset is strictly less frequent.
\<close>

theorem consensus_is_first_mode:
  assumes "valid_samples samples \<noteq> []"
  shows "\<exists>r c. calculate_offset_from_samples samples = Inr r
           \<and> res_offset r = Some c
           \<and> c \<in> set (map (the \<circ> offset) (valid_samples samples))
           \<and> (\<forall>y. count_list (map (the \<circ> offset) (valid_samples samples)) y
                    \<le> count_list (map (the \<circ> offset) (valid_samples samples)) c)
           \<and> (\<forall>y \<in> set (takeWhile (\<lambda>y. y \<noteq> c) (map (the \<circ> offset) (valid_samples samples))).
                  count_list (map (the \<circ> offset) (valid_samples samples)) y
                    < count_list (map (the \<circ> offset) (valid_samples samples)) c)"
proof -
  from calculate_valid [OF assms] obtain c r
    where "c \<in> set (map (the \<circ> offset) (valid_samples samples))"
      "\<forall>y. count_list (map (the \<circ> offset) (valid_samples samples)) y
             \<le> count_list (map (the \<circ> offset) (valid_samples samples)) c"
      "\<forall>y \<in> set (takeWhile (\<lambda>y. y \<noteq> c) (map (the \<circ> offset) (valid_samples samples))).
            count_list (map (the \<circ> offset) (valid_samples samples)) y
              < count_list (map (the \<circ> offset) (valid_samples samples)) c"
      "calculate_offset_from_samples samples = Inr r" "res_offset r = Some c"
    by fastforce
  then show ?thesis by blast
qed

theorem consensus_is_first_mode_witness:
  "valid_samples [OffsetSample 25 (Some 20), OffsetSample 50 (Some 46), OffsetSample 60 None,
                  OffsetSample 75 (Some 71), OffsetSample 90 (Some 85)] \<noteq> []
   \<and> map (the \<circ> offset)
        (valid_samples [OffsetSample 25 (Some 20), OffsetSample 50 (Some 46), OffsetSample 60 None,
                        OffsetSample 75 (Some 71), OffsetSample 90 (Some 85)]) = [5, 4, 4, 5]
   \<and> map_sum id res_offset
        (calculate_offset_from_samples
           [OffsetSample 25 (Some 20), OffsetSample 50 (Some 46), OffsetSample 60 None,
            OffsetSample 75 (Some 71), OffsetSample 90 (Some 85)]) = Inr (Some 5)"
  using consensus_is_first_mode
          [of "[OffsetSample 25 (Some 20), OffsetSample 50 (Some 46), OffsetSample 60 None,
                OffsetSample 75 (Some 71), OffsetSample 90 (Some 85)]"]
  by (simp add: calculate_eval)

text \<open>
  Claim C5, as amended. When at least one sample is valid, the result carries
  \<open>offset_distribution\<close> and \<open>samples_valid\<close>; the values of the distribution
  sum to \<open>samples_valid\<close>, the number of valid samples, and \<open>samples_agreed\<close> is
  the distribution's entry for the consensus offset. When no sample is valid, the offset
  is absent and the result has neither an \<open>offset_distribution\<close> nor a
  \<open>samples_valid\<close> key.
\<close>

theorem offset_distribution_invariant:
  "\<exists>r. calculate_offset_from_samples samples = Inr r
     \<and> (valid_samples samples = [] \<longrightarrow>
          res_offset r = None \<and> res_offset_distribution r = None \<and> res_samples_valid r = None)
     \<and> (valid_samples samples \<noteq> [] \<longrightarrow>
          (\<exists>d c. res_offset_distribution r = Some d
             \<and> distinct (map fst d)
             \<and> res_samples_valid r = Some (length (valid_samples samples))
             \<and> sum_list (map snd d) = length (valid_samples samples)
             \<and> res_offset r = Some c
             \<and> map_of d c = Some (res_samples_agreed r)))"
proof (cases "valid_samples samples = []")
  case True
  then show ?thesis by (simp add: calculate_none)
next
  case False
  define offs where "offs = map (the \<circ> offset) (valid_samples samples)"
  from calculate_valid [OF False] obtain c r
    where c: "c \<in> set offs"
      and r: "calculate_offset_from_samples samples = Inr r"
        "res_offset r = Some c"
        "res_offset_distribution r = Some (Counter offs)"
        "res_samples_valid r = Some (length (valid_samples samples))"
        "res_samples_agreed r = length (filter (\<lambda>s. offset s = Some c) (valid_samples samples))"
    unfolding offs_def by fastforce
  have "count_list offs c = length (filter (\<lambda>s. offset s = Some c) (valid_samples samples))"
    unfolding offs_def by (rule count_list_offsets) (rule valid_samples_offset)
  then have "map_of (Counter offs) c = Some (res_samples_agreed r)"
    using c r(5) by (simp add: Counter_lookup)
  moreover have "sum_list (map snd (Counter offs)) = length (valid_samples samples)"
    by (simp add: Counter_sum offs_def)
  ultimately show ?thesis
    using False r Counter_distinct [of offs] by auto
qed

theorem offset_distribution_invariant_witness:
  "valid_samples [OffsetSample 10 (Some 8), OffsetSample 20 (Some 17), OffsetSample 30 (Some 27)] \<noteq> []
   \<and> map_sum id res_offset_distribution
        (calculate_offset_from_samples
           [OffsetSample 10 (Some 8), OffsetSample 20 (Some 17), OffsetSample 30 (Some 27)])
       = Inr (Some [(2, 1), (3, 2)])
   \<and> map_sum id res_samples_agreed
        (calculate_offset_from_samples
           [OffsetSample 10 (Some 8), OffsetSample 20 (Some 17), OffsetSample 30 (Some 27)])
       = Inr 2
   \<and> valid_samples [OffsetSample 10 None] = []"
  using offset_distribution_invariant
          [of "[OffsetSample 10 (Some 8), OffsetSample 20 (Some 17), OffsetSample 30 (Some 27)]"]
        offset_distribution_invariant [of "[OffsetSample 10 None]"]
  by (simp add: calculate_eval)

text \<open>
  Claim C5 as stated speaks of every result. The result for a sequence with no valid
  sample has no \<open>offset_distribution\<close> and no \<open>samples_valid\<close>.
\<close>

theorem offset_distribution_absent_counterexample:
  "map_sum id res_offset_distribution (calculate_offset_from_samples [OffsetSample 10 None])
     = Inr None
   \<and> map_sum id res_samples_valid (calculate_offset_from_samples [OffsetSample 10 None])
     = Inr None"
  by (simp add: calculate_eval)

text \<open>
  Claim C6, as amended. For every sample sequence the evidence list has as many entries
  as there are samples, which is \<open>samples_processed\<close>, and lists page, label and
  offset of every sample in the input order. When at least one sample is valid, every
  entry is annotated with whether the sample's offset equals the consensus offset, which
  is false for every invalid sample. When no sample is valid, the entries carry no
  annotation.
\<close>

theorem evidence_covers_samples:
  "\<exists>r. calculate_offset_from_samples samples = Inr r
     \<and> res_samples_processed r = length samples
     \<and> length (res_evidence r) = res_samples_processed r
     \<and> map ev_pdf_page (res_evidence r) = map pdf_page samples
     \<and> map ev_detected_label (res_evidence r) = map detected_label samples
     \<and> map ev_offset (res_evidence r) = map offset samples
     \<and> (valid_samples samples \<noteq> [] \<longrightarrow>
          res_offset r \<noteq> None
          \<and> (\<forall>i < length samples.
                ev_agrees_with_consensus (res_evidence r ! i)
                  = Some (offset (samples ! i) = res_offset r)
                \<and> (offset (samples ! i) = None \<longrightarrow>
                     ev_agrees_with_consensus (res_evidence r ! i) = Some False)))
     \<and> (valid_samples samples = [] \<longrightarrow>
          (\<forall>i < length samples. ev_agrees_with_consensus (res_evidence r ! i) = None))"
proof (cases "valid_samples samples = []")
  case True
  then show ?thesis by (simp add: calculate_none comp_def)
next
  case False
  from calculate_valid [OF False] obtain c r
    where r: "calculate_offset_from_samples samples = Inr r"
        "res_offset r = Some c"
        "res_samples_processed r = length samples"
        "res_evidence r =
           map (\<lambda>s. \<lparr>ev_pdf_page = pdf_page s,
                      ev_detected_label = detected_label s,
                      ev_offset = offset s,
                      ev_agrees_with_consensus = Some (offset s = Some c)\<rparr>) samples"
    by fastforce
  show ?thesis
    using False r by (simp add: comp_def)
qed

theorem evidence_covers_samples_witness:
  "valid_samples [OffsetSample 25 (Some 21), OffsetSample 50 None] \<noteq> []
   \<and> map_sum id (map ev_agrees_with_consensus \<circ> res_evidence)
        (calculate_offset_from_samples [OffsetSample 25 (Some 21), OffsetSample 50 None])
       = Inr [Some True, Some False]
   \<and> valid_samples [OffsetSample 50 None] = []
   \<and> map_sum id (length \<circ> res_evidence) (calculate_offset_from_samples [OffsetSample 50 None])
       = Inr 1"
  using evidence_covers_samples [of "[OffsetSample 25 (Some 21), OffsetSample 50 None]"]
        evidence_covers_samples [of "[OffsetSample 50 None]"]
  by (simp add: calculate_eval)

text \<open>
  Claim C6 as stated includes the case where no sample has a detected label. There the
  evidence entries have no \<open>agrees_with_consensus\<close> key.
\<close>

theorem evidence_unannotated_counterexample:
  "map_sum id (map ev_agrees_with_consensus \<circ> res_evidence)
     (calculate_offset_from_samples [OffsetSample 10 None, OffsetSample 20 None])
     = Inr [None, None]"
  by (simp add: calculate_eval)

section \<open>The mapping builder\<close>

text \<open>
  Claim C4, as amended. \<open>validate_offset\<close> answers an absent offset with
  \<open>(False, "No offset detected")\<close>, an offset of magnitude above 50 with invalid, an
  offset from \<open>-50\<close> to \<open>-1\<close> with valid, the offset 0 with valid, and an offset
  from 1 to 50 with valid. The mapping that \<open>create_offset_mapping\<close> builds contains
  the validation record of its offset when the offset is present, and no validation
  record when the offset is absent.
\<close>

theorem mapping_validation:
  "validate_offset None max_offset = (False, ''No offset detected'')
   \<and> (50 < \<bar>v\<bar> \<longrightarrow> \<not> fst (validate_offset (Some v) 50))
   \<and> (- 50 \<le> v \<and> v < 0 \<longrightarrow> fst (validate_offset (Some v) 50))
   \<and> validate_offset (Some 0) 50 = (True, ''Zero offset: PDF and document pages match'')
   \<and> (0 < v \<and> v \<le> 50 \<longrightarrow> fst (validate_offset (Some v) 50))
   \<and> map_validation (create_offset_mapping company document_name offset_result evidence_images detection_method)
       = (case res_offset offset_result of
            None \<Rightarrow> None
          | Some offs \<Rightarrow>
              Some \<lparr>is_valid = fst (validate_offset (Some offs) 50),
                    message = snd (validate_offset (Some offs) 50)\<rparr>)"
  by (auto simp: validate_offset_def create_offset_mapping_def split: option.splits)

theorem mapping_validation_witness:
  "(50 :: int) < \<bar>75\<bar> \<and> \<not> fst (validate_offset (Some 75) 50)
   \<and> (- 50 :: int) \<le> - 3 \<and> (- 3 :: int) < 0 \<and> fst (validate_offset (Some (- 3)) 50)
   \<and> (0 :: int) < 4 \<and> (4 :: int) \<le> 50 \<and> fst (validate_offset (Some 4) 50)
   \<and> map_validation
         (create_offset_mapping ''ACME'' ''report.pdf''
            (projr (calculate_offset_from_samples
               [OffsetSample 25 (Some 21), OffsetSample 50 (Some 46), OffsetSample 75 (Some 71)]))
            [] ''ocr_auto'')
       = Some \<lparr>is_valid = True,
               message = ''Positive offset (4): PDF pages numbered higher than document pages''\<rparr>"
  using mapping_validation [where v = 75] mapping_validation [where v = "- 3"]
    mapping_validation [where v = 4 and company = "''ACME''" and document_name = "''report.pdf''"
      and offset_result = "projr (calculate_offset_from_samples
            [OffsetSample 25 (Some 21), OffsetSample 50 (Some 46), OffsetSample 75 (Some 71)])"
      and evidence_images = "[]" and detection_method = "''ocr_auto''"]
  by (simp add: calculate_eval validate_offset_def str_int_def)

text \<open>
  Claim C4 as stated has every built mapping contain the validation record. The mapping
  built from a result without offset has no \<open>validation\<close> key: the builder calls
  \<open>validate_offset\<close> only for a present offset. The message for an absent offset is
  capitalised.
\<close>

theorem mapping_validation_absent_counterexample:
  "map_validation
     (create_offset_mapping ''ACME'' ''report.pdf''
        (projr (calculate_offset_from_samples [OffsetSample 10 None])) [] ''ocr_auto'') = None
   \<and> snd (validate_offset None 50) \<noteq> ''no offset detected''"
  by (simp add: calculate_eval validate_offset_def create_offset_mapping_def)

section \<open>The label recognizer\<close>

lemma positional_loop_candidates:
  assumes "c \<in> set (positional_loop d header_threshold footer_threshold i words candidates)"
  shows "c \<in> set candidates
       \<or> (\<exists>j < length words. \<exists>top_coord conf.
             strip (words ! j) \<noteq> [] \<and> list_all is_ascii_digit (strip (words ! j))
             \<and> py_int (strip (words ! j)) = Inr c \<and> 1 \<le> c \<and> c \<le> 9999
             \<and> dict_list_get (ocr_top d) (i + j) = Inr top_coord
             \<and> dict_list_get (ocr_conf d) (i + j) = Inr conf \<and> 50 < conf
             \<and> (int_le_float top_coord header_threshold \<or> int_ge_float top_coord footer_threshold))"
  using assms
proof (induction words arbitrary: i candidates)
  case Nil
  then show ?case by simp
next
  case (Cons word words)
  let ?P = "\<lambda>i j ws. \<exists>top_coord conf.
             strip (ws ! j) \<noteq> [] \<and> list_all is_ascii_digit (strip (ws ! j))
             \<and> py_int (strip (ws ! j)) = Inr c \<and> 1 \<le> c \<and> c \<le> 9999
             \<and> dict_list_get (ocr_top d) (i + j) = Inr top_coord
             \<and> dict_list_get (ocr_conf d) (i + j) = Inr conf \<and> 50 < conf
             \<and> (int_le_float top_coord header_threshold \<or> int_ge_float top_coord footer_threshold)"
  define candidates' where "candidates' =
       (if strip word = [] then candidates
        else case dict_list_get (ocr_top d) i of
               Inl e \<Rightarrow> candidates
             | Inr top_coord \<Rightarrow>
                 (case dict_list_get (ocr_conf d) i of
                    Inl e \<Rightarrow> candidates
                  | Inr conf \<Rightarrow>
                      let in_footer = int_ge_float top_coord footer_threshold;
                          in_header = int_le_float top_coord header_threshold
                      in if \<not> (in_footer \<or> in_header) then candidates
                         else if isdigit (strip word)
                         then (case py_int (strip word) of
                                 Inl e \<Rightarrow> candidates
                               | Inr page_num \<Rightarrow>
                                   if 1 \<le> page_num \<and> page_num \<le> 9999 \<and> 50 < conf
                                   then candidates @ [page_num] else candidates)
                         else candidates))"
  have step: "c \<in> set candidates' \<Longrightarrow> c \<in> set candidates \<or> ?P i 0 (word # words)"
    unfolding candidates'_def
    by (auto simp: Let_def py_int_def split: if_splits sum.splits)
  from Cons.prems have "c \<in> set (positional_loop d header_threshold footer_threshold (Suc i) words candidates')"
    by (simp add: candidates'_def)
  from Cons.IH [OF this] have "c \<in> set candidates' \<or> (\<exists>j < length words. ?P (Suc i) j words)" .
  then show ?case
  proof
    assume "c \<in> set candidates'"
    from step [OF this] show ?thesis by auto
  next
    assume "\<exists>j < length words. ?P (Suc i) j words"
    then obtain j where j: "j < length words" "?P (Suc i) j words" by blast
    then have "Suc j < length (word # words)" "?P i (Suc j) (word # words)" by simp_all
    then show ?thesis by blast
  qed
qed

lemmas detect_eval =
  detect_labeled_page_number_def find_positional_page_numbers_def find_page_number_patterns_def
  PAGE_PATTERNS_def bs_def py_int_def strip_def isspace_def isdigit_def is_ascii_digit_def
  dict_list_get_def literal_0_10_def literal_0_90_def float_eval

text \<open>
  Claim C7. When the recognizer returns the page text and the token data, the detector
  returns the first element of the positional candidates followed by the pattern
  candidates, and nothing when both lists are empty. Every positional candidate is the
  value of a token that, stripped of white space, consists of decimal digits, lies in
  \<open>1 .. 9999\<close>, was recognized with a confidence above 50, and whose top coordinate is
  at most \<open>height * 0.10\<close> or at least \<open>height * 0.90\<close>, the products being the
  doubles the code computes. For an image height below \<open>2 ^ 31\<close> these two tests
  are exactly \<open>10 * top \<le> height\<close> and \<open>9 * height \<le> 10 * top\<close>.
\<close>

theorem detect_label_priority:
  assumes "image_to_string ocr img = Inr page_text" and "image_to_data ocr img = Inr d"
    and "ocr_text d = Some words" and "img_size img = (width, height)"
    and "\<bar>height\<bar> \<le> 2 ^ 1000"
  shows "\<exists>h positional.
           float_of_int height = Inr h
           \<and> find_positional_page_numbers d (img_size img) = Inr positional
           \<and> detect_labeled_page_number ocr finditer img
               = (case positional @ find_page_number_patterns finditer page_text of
                    [] \<Rightarrow> None
                  | c # _ \<Rightarrow> Some c)
           \<and> (\<forall>c \<in> set positional.
                 \<exists>i < length words. \<exists>top_coord conf.
                   strip (words ! i) \<noteq> [] \<and> list_all is_ascii_digit (strip (words ! i))
                   \<and> py_int (strip (words ! i)) = Inr c \<and> 1 \<le> c \<and> c \<le> 9999
                   \<and> dict_list_get (ocr_top d) i = Inr top_coord
                   \<and> dict_list_get (ocr_conf d) i = Inr conf \<and> 50 < conf
                   \<and> (int_le_float top_coord (float_mul h literal_0_10)
                        \<or> int_ge_float top_coord (float_mul h literal_0_90)))
           \<and> (0 \<le> height \<and> height < 2 ^ 31 \<longrightarrow>
                 (\<forall>t. (int_le_float t (float_mul h literal_0_10) \<longleftrightarrow> 10 * t \<le> height)
                    \<and> (int_ge_float t (float_mul h literal_0_90) \<longleftrightarrow> 9 * height \<le> 10 * t)))"
proof -
  from float_of_int_bounded [OF assms(5)] obtain y
    where h: "float_of_int height = Inr (Finite y)" by auto
  define positional where "positional =
    positional_loop d (float_mul (Finite y) literal_0_10) (float_mul (Finite y) literal_0_90) 0 words []"
  have pos: "find_positional_page_numbers d (img_size img) = Inr positional"
    using assms(3,4) h by (simp add: find_positional_page_numbers_def positional_def)
  have det: "detect_labeled_page_number ocr finditer img
               = (case positional @ find_page_number_patterns finditer page_text of
                    [] \<Rightarrow> None
                  | c # _ \<Rightarrow> Some c)"
    using assms(1,2) pos by (simp add: detect_labeled_page_number_def)
  have "\<forall>c \<in> set positional.
                 \<exists>i < length words. \<exists>top_coord conf.
                   strip (words ! i) \<noteq> [] \<and> list_all is_ascii_digit (strip (words ! i))
                   \<and> py_int (strip (words ! i)) = Inr c \<and> 1 \<le> c \<and> c \<le> 9999
                   \<and> dict_list_get (ocr_top d) i = Inr top_coord
                   \<and> dict_list_get (ocr_conf d) i = Inr conf \<and> 50 < conf
                   \<and> (int_le_float top_coord (float_mul (Finite y) literal_0_10)
                        \<or> int_ge_float top_coord (float_mul (Finite y) literal_0_90))"
  proof
    fix c assume "c \<in> set positional"
    from positional_loop_candidates [OF this [unfolded positional_def]]
    show "\<exists>i < length words. \<exists>top_coord conf.
                   strip (words ! i) \<noteq> [] \<and> list_all is_ascii_digit (strip (words ! i))
                   \<and> py_int (strip (words ! i)) = Inr c \<and> 1 \<le> c \<and> c \<le> 9999
                   \<and> dict_list_get (ocr_top d) i = Inr top_coord
                   \<and> dict_list_get (ocr_conf d) i = Inr conf \<and> 50 < conf
                   \<and> (int_le_float top_coord (float_mul (Finite y) literal_0_10)
                        \<or> int_ge_float top_coord (float_mul (Finite y) literal_0_90))"
      by simp
  qed
  moreover have "0 \<le> height \<and> height < 2 ^ 31 \<longrightarrow>
                 (\<forall>t. (int_le_float t (float_mul (Finite y) literal_0_10) \<longleftrightarrow> 10 * t \<le> height)
                    \<and> (int_ge_float t (float_mul (Finite y) literal_0_90) \<longleftrightarrow> 9 * height \<le> 10 * t))"
  proof (intro impI allI)
    fix t assume small: "0 \<le> height \<and> height < 2 ^ 31"
    then have "float_of_int height = Inr (Finite (of_int height))"
      by (intro float_of_int_exact) simp_all
    with h have "y = of_int height" by simp
    with small show "(int_le_float t (float_mul (Finite y) literal_0_10) \<longleftrightarrow> 10 * t \<le> height)
                    \<and> (int_ge_float t (float_mul (Finite y) literal_0_90) \<longleftrightarrow> 9 * height \<le> 10 * t)"
      by (simp only: header_threshold_exact footer_threshold_exact simp_thms)
  qed
  ultimately show ?thesis using h pos det by blast
qed

theorem detect_label_priority_witness:
  "image_to_string
     \<lparr>image_to_string = (\<lambda>i. Inr ''Page 3''),
      image_to_data = (\<lambda>i. Inr \<lparr>ocr_text = Some [''Annual'', '' 42 '', ''7''],
                                ocr_top = Some [50, 950, 500], ocr_conf = Some [90, 96, 99]\<rparr>)\<rparr>
     \<lparr>img_size = (800, 1000), img_pixels = ()\<rparr> = Inr ''Page 3''
   \<and> \<bar>1000 :: int\<bar> \<le> 2 ^ 1000
   \<and> detect_labeled_page_number
     \<lparr>image_to_string = (\<lambda>i. Inr ''Page 3''),
      image_to_data = (\<lambda>i. Inr \<lparr>ocr_text = Some [''Annual'', '' 42 '', ''7''],
                                ocr_top = Some [50, 950, 500], ocr_conf = Some [90, 96, 99]\<rparr>)\<rparr>
     (\<lambda>pattern text. if pattern = hd PAGE_PATTERNS then [''3''] else [])
     \<lparr>img_size = (800, 1000), img_pixels = ()\<rparr> = Some 42"
  using detect_label_priority
    [where ocr = "\<lparr>image_to_string = (\<lambda>i. Inr ''Page 3''),
      image_to_data = (\<lambda>i. Inr \<lparr>ocr_text = Some [''Annual'', '' 42 '', ''7''],
                                ocr_top = Some [50, 950, 500], ocr_conf = Some [90, 96, 99]\<rparr>)\<rparr>"
      and img = "\<lparr>img_size = (800, 1000), img_pixels = ()\<rparr>" and page_text = "''Page 3''"
      and d = "\<lparr>ocr_text = Some [''Annual'', '' 42 '', ''7''],
                                ocr_top = Some [50, 950, 500], ocr_conf = Some [90, 96, 99]\<rparr>"
      and words = "[''Annual'', '' 42 '', ''7'']" and width = 800 and height = 1000
      and finditer = "\<lambda>pattern text. if pattern = hd PAGE_PATTERNS then [''3''] else []"]
  by (simp add: detect_eval)

text \<open>
  Claim C9. When the recognizer raises, on the page text or on the token data, the
  detector returns \<open>None\<close> and raises nothing: the result of a page on which
  recognition succeeds and no strategy finds a candidate.
\<close>

theorem recognizer_failure_yields_none:
  assumes "image_to_string ocr img = Inl e
           \<or> (\<exists>text. image_to_string ocr img = Inr text \<and> image_to_data ocr img = Inl e)"
  shows "detect_labeled_page_number ocr finditer img = None
         \<and> (\<forall>ocr' text d.
               image_to_string ocr' img = Inr text \<and> image_to_data ocr' img = Inr d
               \<and> find_positional_page_numbers d (img_size img) = Inr []
               \<and> find_page_number_patterns finditer text = []
               \<longrightarrow> detect_labeled_page_number ocr' finditer img
                     = detect_labeled_page_number ocr finditer img)"
  using assms by (auto simp: detect_labeled_page_number_def)

theorem recognizer_failure_yields_none_witness:
  "image_to_string
     \<lparr>image_to_string = (\<lambda>i. Inl RecognizerError), image_to_data = (\<lambda>i. Inl RecognizerError)\<rparr>
     \<lparr>img_size = (800, 1000), img_pixels = ()\<rparr> = Inl RecognizerError
   \<and> detect_labeled_page_number
     \<lparr>image_to_string = (\<lambda>i. Inl RecognizerError), image_to_data = (\<lambda>i. Inl RecognizerError)\<rparr>
     (\<lambda>pattern text. [''3''])
     \<lparr>img_size = (800, 1000), img_pixels = ()\<rparr> = None"
  using recognizer_failure_yields_none
    [where ocr = "\<lparr>image_to_string = (\<lambda>i. Inl RecognizerError), image_to_data = (\<lambda>i. Inl RecognizerError)\<rparr>"
      and img = "\<lparr>img_size = (800, 1000), img_pixels = ()\<rparr>" and e = RecognizerError
      and finditer = "\<lambda>pattern text. [''3'']"]
  by simp

end
